theory Spec2Isabelle
  imports Complex_Main "HOL-Library.Sublist"
begin

section \<open>SeedboxSync: the download orchestrator and the resumable transfer\<close>

text \<open>
  A shallow embedding of the two TypeScript classes of the repository:
  \<^item> \<open>Downloader\<close> (the orchestrator: sync cycle, queue, connection pool, path mapping,
    flattening of the recursive listing, status snapshot);
  \<^item> \<open>FtpDownloader\<close> (one resumable transfer: temp file opened for append, offset
    resume, once-guarded finalize, size check, rename).
  JavaScript objects that are shared and mutated (the \<open>FtpFile\<close> entries, the sessions)
  live in an explicit store and are referred to by a number; closures are the data they
  capture; every callback of the event loop is an event of a step function.
\<close>

subsection \<open>Entries, listings and path mappings\<close>

text \<open>
  Modelled from the spec: the class \<open>FtpFile\<close> (objects/FtpFile is not among the sources).
  The fields are those the two classes read and write; \<open>fsize\<close> is the field \<open>size\<close> and
  \<open>mtime\<close> the remote modification time the queue is sorted by.
\<close>

record ftp_file =
  name :: string
  relativeDirectory :: string
  fullPath :: string
  isSymLink :: bool
  fsize :: nat
  mtime :: nat
  downloading :: bool
  transferred :: nat
  destinationRoot :: string

text \<open>
  Modelled from the spec: \<open>FtpFile.appendSlash\<close> (objects/FtpFile is not among the sources).
  The spec asks for a directory-separator-terminated path; its relative directories have
  no leading separator (\<open>tv/showA/\<close>) and its empty remote prefix matches every
  directory, so the empty path stays empty.
\<close>

definition appendSlash :: "string \<Rightarrow> string" where
  "appendSlash p = (if p = [] \<or> last p = CHR ''/'' then p else p @ ''/'')"

text \<open>
  \<open>String.prototype.indexOf\<close>: the position of the first occurrence of the needle, or
  \<open>-1\<close>; the empty needle occurs at position 0.
\<close>

fun indexOf :: "string \<Rightarrow> string \<Rightarrow> int" where
  "indexOf [] t = (if t = [] then 0 else - 1)"
| "indexOf (c # s) t =
     (if prefix t (c # s) then 0
      else (let k = indexOf s t in if k < 0 then - 1 else k + 1))"

text \<open>\<open>String.prototype.substring\<close> with one argument within the length of the string.\<close>

definition substring :: "string \<Rightarrow> nat \<Rightarrow> string" where
  "substring s n = drop n s"

record PathMapping =
  remotePath :: string
  localPath :: string

text \<open>
  \<open>Downloader.getDestinationDirectory\<close>: the \<open>for ... of\<close> loop over
  \<open>config.pathMappings\<close> returns from inside the loop at the first match; the second
  argument is \<open>config.localSyncRoot\<close>.
\<close>

fun getDestinationDirectory :: "PathMapping list \<Rightarrow> string \<Rightarrow> ftp_file \<Rightarrow> string" where
  "getDestinationDirectory [] localSyncRoot file =
     appendSlash localSyncRoot @ relativeDirectory file"
| "getDestinationDirectory (pathMap # rest) localSyncRoot file =
     (let remoteDirectory = relativeDirectory file;
          pathMapDirectory = appendSlash (remotePath pathMap)
      in if indexOf remoteDirectory pathMapDirectory = 0
         then appendSlash (localPath pathMap) @ substring remoteDirectory (length pathMapDirectory)
         else getDestinationDirectory rest localSyncRoot file)"

text \<open>
  The claim's wording, to compare with: the first rule whose slash-terminated remote path
  is a prefix of the relative directory, the prefix stripped, the rest appended to the
  slash-terminated local path; the default root when no rule matches.
\<close>

definition resolve_spec :: "PathMapping list \<Rightarrow> string \<Rightarrow> ftp_file \<Rightarrow> string" where
  "resolve_spec rules localSyncRoot file =
     (case find (\<lambda>r. prefix (appendSlash (remotePath r)) (relativeDirectory file)) rules of
        Some r \<Rightarrow> appendSlash (localPath r)
                   @ drop (length (appendSlash (remotePath r))) (relativeDirectory file)
      | None \<Rightarrow> appendSlash localSyncRoot @ relativeDirectory file)"

text \<open>
  A node of the recursive listing (jsftp-lsr): name, type, size, time and, for a
  directory that was listed, its children. \<open>lchildren = None\<close> is a node whose
  \<open>children\<close> is not an object.
\<close>

datatype ftp_type = FTP_TYPE_FILE | FTP_TYPE_DIRECTORY | FTP_TYPE_SYM_LINK | FTP_TYPE_OTHER

datatype listing =
  Listing (lname: string) (ltype: ftp_type) (lsize: nat) (ltime: nat)
          (lchildren: "listing list option")

text \<open>
  Modelled from the spec: the constructor \<open>new FtpFile(basePath, relativePath, file)\<close>
  (objects/FtpFile is not among the sources): the entry of a listed node, not downloading,
  nothing transferred.
\<close>

definition new_FtpFile :: "string \<Rightarrow> string \<Rightarrow> listing \<Rightarrow> ftp_file" where
  "new_FtpFile basePath relativePath file =
     \<lparr> name = lname file,
       relativeDirectory = relativePath,
       fullPath = appendSlash basePath @ relativePath @ lname file,
       isSymLink = (ltype file = FTP_TYPE_SYM_LINK),
       fsize = lsize file,
       mtime = ltime file,
       downloading = False,
       transferred = 0,
       destinationRoot = [] \<rparr>"

text \<open>
  \<open>Downloader.processFilesJSON\<close>. The array \<open>outList\<close> is shared by all recursive calls
  and mutated in place, and the result of a recursive call is dropped: the model returns
  the pair of the returned value (\<open>None\<close> is \<open>undefined\<close>, the bare \<open>return\<close> at depth
  0) and the array after the call. \<open>processFilesLoop\<close> is the \<open>for ... of\<close> loop, entered
  with the slash-terminated relative path.
\<close>

fun processFilesJSON ::
    "listing list \<Rightarrow> string \<Rightarrow> nat \<Rightarrow> string \<Rightarrow> ftp_file list
       \<Rightarrow> ftp_file list option \<times> ftp_file list"
  and processFilesLoop ::
    "listing list \<Rightarrow> string \<Rightarrow> nat \<Rightarrow> string \<Rightarrow> ftp_file list \<Rightarrow> ftp_file list"
where
  "processFilesJSON data basePath depth relativePath outList =
     (if depth = 0 then (None, outList)
      else (let out = processFilesLoop data basePath depth (appendSlash relativePath) outList
            in (Some out, out)))"
| "processFilesLoop [] basePath depth relativePath outList = outList"
| "processFilesLoop (Listing n t sz tm ch # rest) basePath depth relativePath outList =
     (if t = FTP_TYPE_SYM_LINK \<or> t = FTP_TYPE_FILE
      then processFilesLoop rest basePath depth relativePath
             (outList @ [new_FtpFile basePath relativePath (Listing n t sz tm ch)])
      else if t = FTP_TYPE_DIRECTORY
      then (case ch of
              Some children \<Rightarrow>
                processFilesLoop rest basePath depth relativePath
                  (snd (processFilesJSON children basePath (depth - 1) (relativePath @ n) outList))
            | None \<Rightarrow> processFilesLoop rest basePath depth relativePath outList)
      else processFilesLoop rest basePath depth relativePath outList)"

text \<open>
  The claim's wording, to compare with: every file and symbolic link of the listing, in
  listing order (a directory's content stands where the directory stands), each with the
  number of directories that enclose it below the listed root.
\<close>

fun walk :: "nat \<Rightarrow> string \<Rightarrow> string \<Rightarrow> listing \<Rightarrow> (nat \<times> ftp_file) list" where
  "walk k basePath rel (Listing n t sz tm ch) =
     (if t = FTP_TYPE_SYM_LINK \<or> t = FTP_TYPE_FILE
      then [(k, new_FtpFile basePath rel (Listing n t sz tm ch))]
      else if t = FTP_TYPE_DIRECTORY
      then (case ch of
              Some children \<Rightarrow>
                concat (map (walk (Suc k) basePath (appendSlash (rel @ n))) children)
            | None \<Rightarrow> [])
      else [])"

definition walk_all :: "nat \<Rightarrow> string \<Rightarrow> string \<Rightarrow> listing list \<Rightarrow> (nat \<times> ftp_file) list" where
  "walk_all k basePath rel data = concat (map (walk k basePath rel) data)"

definition upto_depth :: "nat \<Rightarrow> (nat \<times> ftp_file) list \<Rightarrow> ftp_file list" where
  "upto_depth d es = map snd (filter (\<lambda>e. fst e < d) es)"

subsection \<open>The orchestrator \<open>Downloader\<close>\<close>

text \<open>
  The configuration the class reads: \<open>config.downloads.countMax\<close>, \<open>config.pathMappings\<close>,
  \<open>config.localSyncRoot\<close>, \<open>config.seedboxFtp.syncRoot\<close>, \<open>config.deleteRemoteFiles\<close>
  and \<open>config.seedboxFtp.pollingIntervalInSeconds\<close>.
\<close>

record config =
  countMax :: nat
  pathMappings :: "PathMapping list"
  localSyncRoot :: string
  syncRoot :: string
  deleteRemoteFiles :: bool
  pollingIntervalInSeconds :: nat

text \<open>
  The fields of the class, and the world its callbacks live in. \<open>downloading_cycle\<close> is the
  field \<open>downloading\<close> of the class (the entry's field has that name too). The queue, the
  completed list and the pool hold references: an entry is \<open>store s f\<close>, a session is a
  number handed out by \<open>newJSFtp\<close>. A closure \<open>ftpDownloadError\<close> is the entry it captured,
  registered on the session it captured (\<open>listeners\<close>, in registration order, the same for
  the events \<open>error\<close> and \<open>timeout\<close>). \<open>pendingScans\<close>, \<open>pendingLs\<close> and \<open>pendingGets\<close>
  are the requests whose callback has not run yet; \<open>getRequests\<close> lists every call of
  \<open>ftp.get\<close> so far (the entry, its remote path, the local path); \<open>timers\<close> are the
  armed timeouts with their delay in milliseconds. Logging and the creation of directories
  are left out.
\<close>

record downloader =
  downloading_cycle :: bool
  syncRequestedWhileDownloading :: bool
  lastRunHadStuffToDownload :: bool
  downloadQueue :: "nat list"
  completedList :: "nat list"
  ftpConnectionPool :: "nat list"
  pollingTimeoutId :: nat
  store :: "nat \<Rightarrow> ftp_file"
  nextRef :: nat
  nextFtp :: nat
  nextTimer :: nat
  timers :: "(nat \<times> nat) list"
  scanListeners :: "nat list"
  pendingScans :: "nat list"
  pendingLs :: "(nat \<times> nat) list"
  listeners :: "nat \<Rightarrow> nat list"
  progressListeners :: "nat \<Rightarrow> nat"
  pendingGets :: "(nat \<times> nat) list"
  getRequests :: "(nat \<times> string \<times> string) list"
  deleteRequests :: "nat list"

definition blank_file :: ftp_file where
  "blank_file = \<lparr> name = [], relativeDirectory = [], fullPath = [], isSymLink = False,
                   fsize = 0, mtime = 0, downloading = False, transferred = 0,
                   destinationRoot = [] \<rparr>"

text \<open>The object after its construction; timer identifiers are truthy, so they start at 1.\<close>

definition init :: downloader where
  "init = \<lparr> downloading_cycle = False,
            syncRequestedWhileDownloading = False,
            lastRunHadStuffToDownload = False,
            downloadQueue = [],
            completedList = [],
            ftpConnectionPool = [],
            pollingTimeoutId = 0,
            store = (\<lambda>_. blank_file),
            nextRef = 0,
            nextFtp = 0,
            nextTimer = 1,
            timers = [],
            scanListeners = [],
            pendingScans = [],
            pendingLs = [],
            listeners = (\<lambda>_. []),
            progressListeners = (\<lambda>_. 0),
            pendingGets = [],
            getRequests = [],
            deleteRequests = [] \<rparr>"

text \<open>\<open>newJSFtp\<close>: a new session.\<close>

definition newJSFtp :: "downloader \<Rightarrow> nat \<times> downloader" where
  "newJSFtp s = (nextFtp s, s\<lparr>nextFtp := Suc (nextFtp s)\<rparr>)"

text \<open>
  \<open>startSync\<close> up to the request \<open>ftp.lsr\<close>: the flags, the cancelled polling timer, the
  new session with \<open>ftpScanError\<close> on its events \<open>error\<close> and \<open>timeout\<close>, the pending
  listing. The callback of \<open>lsr\<close> is the event \<open>ScanDone\<close> below.
\<close>

definition startSync :: "config \<Rightarrow> downloader \<Rightarrow> downloader" where
  "startSync cfg s =
     (let s1 = s\<lparr>syncRequestedWhileDownloading := False, downloading_cycle := True\<rparr>;
          s2 = (if pollingTimeoutId s1 \<noteq> 0
                then s1\<lparr>timers := filter (\<lambda>t. fst t \<noteq> pollingTimeoutId s1) (timers s1),
                        pollingTimeoutId := 0\<rparr>
                else s1);
          (ftp, s3) = newJSFtp s2
      in s3\<lparr>scanListeners := scanListeners s3 @ [ftp],
             pendingScans := pendingScans s3 @ [ftp]\<rparr>)"

definition syncRequest :: "config \<Rightarrow> downloader \<Rightarrow> downloader" where
  "syncRequest cfg s =
     (if downloading_cycle s then s\<lparr>syncRequestedWhileDownloading := True\<rparr>
      else startSync cfg s)"

definition downloadCompleteCallback :: "config \<Rightarrow> downloader \<Rightarrow> downloader" where
  "downloadCompleteCallback cfg s =
     (let s1 = s\<lparr>downloading_cycle := False\<rparr>
      in if lastRunHadStuffToDownload s1 \<or> syncRequestedWhileDownloading s1
         then startSync cfg s1
         else s1\<lparr>pollingTimeoutId := nextTimer s1,
                  timers := timers s1 @ [(nextTimer s1, pollingIntervalInSeconds cfg * 1000)],
                  nextTimer := Suc (nextTimer s1)\<rparr>)"

text \<open>
  \<open>ftpForDownloading\<close>: \<open>pop\<close> takes the last session of the pool, a new one is made when
  the pool is empty; one more \<open>progress\<close> listener on it. \<open>doneWithFtpObj\<close>: \<open>push\<close>.
\<close>

definition ftpForDownloading :: "downloader \<Rightarrow> nat \<times> downloader" where
  "ftpForDownloading s =
     (let (ftp, s1) = (if ftpConnectionPool s = [] then newJSFtp s
                       else (last (ftpConnectionPool s),
                             s\<lparr>ftpConnectionPool := butlast (ftpConnectionPool s)\<rparr>))
      in (ftp, s1\<lparr>progressListeners :=
                     (progressListeners s1)(ftp := Suc (progressListeners s1 ftp))\<rparr>))"

definition doneWithFtpObj :: "nat \<Rightarrow> downloader \<Rightarrow> downloader" where
  "doneWithFtpObj ftp s = s\<lparr>ftpConnectionPool := ftpConnectionPool s @ [ftp]\<rparr>"

text \<open>
  \<open>getNextFileToDownload\<close>: the loop keeps the count of the entries that are downloading
  and the first entry that is not.
\<close>

fun scanQueue :: "(nat \<Rightarrow> ftp_file) \<Rightarrow> nat list \<Rightarrow> nat \<Rightarrow> nat option \<Rightarrow> nat \<times> nat option" where
  "scanQueue st [] downloadingCount nextFile = (downloadingCount, nextFile)"
| "scanQueue st (file # rest) downloadingCount nextFile =
     (if \<not> downloading (st file)
      then scanQueue st rest downloadingCount (if nextFile = None then Some file else nextFile)
      else scanQueue st rest (downloadingCount + 1) nextFile)"

definition getNextFileToDownload :: "config \<Rightarrow> downloader \<Rightarrow> nat option" where
  "getNextFileToDownload cfg s =
     (let (downloadingCount, nextFile) = scanQueue (store s) (downloadQueue s) 0 None
      in if downloadingCount < countMax cfg then nextFile else None)"

text \<open>
  The number of entries of the queue whose flag \<open>downloading\<close> is set, and the first entry
  whose flag is not set: the words of the claim about the selection.
\<close>

definition downloadingCount :: "downloader \<Rightarrow> nat" where
  "downloadingCount s = length (filter (\<lambda>f. downloading (store s f)) (downloadQueue s))"

definition firstNotDownloading :: "downloader \<Rightarrow> nat option" where
  "firstNotDownloading s = find (\<lambda>f. \<not> downloading (store s f)) (downloadQueue s)"

text \<open>
  \<open>removeFileFromQueue\<close>: the index moves on after a \<open>splice\<close>, so the element that slid
  into the place of the removed one is not compared.
\<close>

fun removeFileFromQueue :: "nat \<Rightarrow> nat list \<Rightarrow> nat list" where
  "removeFileFromQueue ftpFile [] = []"
| "removeFileFromQueue ftpFile (x # queue) =
     (if x = ftpFile
      then (case queue of [] \<Rightarrow> [] | y # rest \<Rightarrow> y # removeFileFromQueue ftpFile rest)
      else x # removeFileFromQueue ftpFile queue)"

text \<open>
  The part of \<open>downloadNextInQueue\<close> that starts one transfer: the flag, the local
  path, the session from the pool, the closure \<open>ftpDownloadError\<close> on its events, the
  request \<open>ftp.get\<close>.
\<close>

definition dispatch :: "config \<Rightarrow> nat \<Rightarrow> downloader \<Rightarrow> downloader" where
  "dispatch cfg file s =
     (let s1 = s\<lparr>store := (store s)(file := (store s file)\<lparr>downloading := True\<rparr>)\<rparr>;
          localDirectory =
            getDestinationDirectory (pathMappings cfg) (localSyncRoot cfg) (store s1 file);
          localPath = appendSlash localDirectory @ name (store s1 file);
          (ftp, s2) = ftpForDownloading s1
      in s2\<lparr>listeners := (listeners s2)(ftp := listeners s2 ftp @ [file]),
             pendingGets := pendingGets s2 @ [(ftp, file)],
             getRequests := getRequests s2 @ [(file, fullPath (store s2 file), localPath)]\<rparr>)"

lemma scanQueue_next:
  "scanQueue st q c nf = (c', Some f) \<Longrightarrow> nf = None
     \<Longrightarrow> f \<in> set q \<and> \<not> downloading (st f)"
proof (induction q arbitrary: c nf)
  case Nil
  then show ?case by simp
next
  case (Cons x q)
  have keep: "\<And>c g. scanQueue st q c (Some g) = (c', Some f) \<Longrightarrow> g = f"
    for q
  proof (induction q)
    case Nil
    then show ?case by simp
  next
    case (Cons y q)
    then show ?case by (simp split: if_splits)
  qed
  show ?case
  proof (cases "downloading (st x)")
    case True
    then show ?thesis using Cons by simp
  next
    case False
    then have "scanQueue st q c (Some x) = (c', Some f)" using Cons.prems by simp
    then have "x = f" by (rule keep)
    then show ?thesis using False by simp
  qed
qed

lemma getNext_Some:
  "getNextFileToDownload cfg s = Some f
     \<Longrightarrow> f \<in> set (downloadQueue s) \<and> \<not> downloading (store s f)"
  unfolding getNextFileToDownload_def
  by (auto split: prod.splits if_splits dest: scanQueue_next)

lemma dispatch_store:
  "store (dispatch cfg f s) = (store s)(f := (store s f)\<lparr>downloading := True\<rparr>)"
  by (simp add: dispatch_def ftpForDownloading_def newJSFtp_def Let_def split: prod.splits)

lemma dispatch_queue: "downloadQueue (dispatch cfg f s) = downloadQueue s"
  by (simp add: dispatch_def ftpForDownloading_def newJSFtp_def Let_def split: prod.splits)

text \<open>
  \<open>downloadNextInQueue\<close>: nothing to start and an empty queue end the cycle; a started
  transfer is followed by the call of \<open>downloadNextInQueue\<close> at the end of the method. Each
  call sets the flag of one more entry of the queue, which bounds the recursion.
\<close>

function downloadNextInQueue :: "config \<Rightarrow> downloader \<Rightarrow> downloader" where
  "downloadNextInQueue cfg s =
     (case getNextFileToDownload cfg s of
        None \<Rightarrow> (if downloadQueue s = [] then downloadCompleteCallback cfg s else s)
      | Some file \<Rightarrow> downloadNextInQueue cfg (dispatch cfg file s))"
  by pat_completeness auto
termination
proof (relation "measure (\<lambda>(cfg, s).
         length (filter (\<lambda>f. \<not> downloading (store s f)) (downloadQueue s)))")
  show "wf (measure (\<lambda>(cfg, s).
         length (filter (\<lambda>f. \<not> downloading (store s f)) (downloadQueue s))))"
    by simp
next
  fix cfg s g
  assume gn: "getNextFileToDownload cfg s = Some g"
  let ?P = "\<lambda>f. \<not> downloading (store s f)"
  let ?Q = "\<lambda>f. \<not> downloading (store (dispatch cfg g s) f)"
  have m: "g \<in> set (downloadQueue s)" and nd: "?P g"
    using getNext_Some[OF gn] by simp_all
  have "filter ?Q (downloadQueue s) = filter ?Q (filter ?P (downloadQueue s))"
    by (auto simp: dispatch_store intro: filter_cong)
  moreover have "length (filter ?Q (filter ?P (downloadQueue s)))
                   < length (filter ?P (downloadQueue s))"
    by (rule length_filter_less[of g]) (use m nd in \<open>simp_all add: dispatch_store\<close>)
  ultimately show "((cfg, dispatch cfg g s), (cfg, s)) \<in> measure (\<lambda>(cfg, s).
         length (filter (\<lambda>f. \<not> downloading (store s f)) (downloadQueue s)))"
    by (simp add: dispatch_queue)
qed

text \<open>
  The closure \<open>ftpDownloadError\<close> of the transfer of \<open>file\<close> on the session \<open>ftp\<close>:
  \<open>releaseAfterError\<close> is the state before its last statement, the call of
  \<open>downloadNextInQueue\<close>.
\<close>

definition releaseAfterError :: "nat \<Rightarrow> nat \<Rightarrow> downloader \<Rightarrow> downloader" where
  "releaseAfterError file ftp s =
     doneWithFtpObj ftp (s\<lparr>store := (store s)(file := (store s file)\<lparr>downloading := False\<rparr>)\<rparr>)"

definition ftpDownloadError :: "config \<Rightarrow> nat \<Rightarrow> nat \<Rightarrow> downloader \<Rightarrow> downloader" where
  "ftpDownloadError cfg file ftp s = downloadNextInQueue cfg (releaseAfterError file ftp s)"

text \<open>
  The callback of \<open>ftp.get\<close> without an error: the optional \<open>dele\<close> on a session of its
  own, the completed list, the removal from the queue, the session back to the pool, the
  next transfer.
\<close>

definition downloadSucceeded :: "config \<Rightarrow> nat \<Rightarrow> nat \<Rightarrow> downloader \<Rightarrow> downloader" where
  "downloadSucceeded cfg file ftp s =
     (let s1 = (if deleteRemoteFiles cfg
                then (let (deleteFtp, t) = newJSFtp s
                      in t\<lparr>deleteRequests := deleteRequests t @ [file]\<rparr>)
                else s);
          s2 = s1\<lparr>completedList := completedList s1 @ [file]\<rparr>;
          s3 = s2\<lparr>downloadQueue := removeFileFromQueue file (downloadQueue s2)\<rparr>
      in downloadNextInQueue cfg (doneWithFtpObj ftp s3))"

text \<open>
  Modelled from the spec: \<open>FtpFile.sortNewestFirst\<close> and \<open>FtpFile.setTargetData\<close>
  (objects/FtpFile is not among the sources): the queue is sorted once, newest remote
  modification time first, entries of equal time in their listing order; the size of a
  symbolic link is the size of its target.
\<close>

fun insertNewest :: "(nat \<Rightarrow> ftp_file) \<Rightarrow> nat \<Rightarrow> nat list \<Rightarrow> nat list" where
  "insertNewest st x [] = [x]"
| "insertNewest st x (y # ys) =
     (if mtime (st y) \<le> mtime (st x) then x # y # ys else y # insertNewest st x ys)"

definition sortNewestFirst :: "(nat \<Rightarrow> ftp_file) \<Rightarrow> nat list \<Rightarrow> nat list" where
  "sortNewestFirst st q = foldr (insertNewest st) q []"

definition setTargetData :: "listing \<Rightarrow> ftp_file \<Rightarrow> ftp_file" where
  "setTargetData target file = file\<lparr>fsize := lsize target\<rparr>"

text \<open>
  The new objects of a scan: the entries of \<open>processFilesJSON\<close> get the next free
  references, in order.
\<close>

fun allocate :: "ftp_file list \<Rightarrow> nat \<Rightarrow> (nat \<Rightarrow> ftp_file) \<Rightarrow> (nat \<Rightarrow> ftp_file)" where
  "allocate [] r st = st"
| "allocate (e # es) r st = allocate es (Suc r) (st(r := e))"

text \<open>
  The callback of \<open>ftp.lsr\<close> with data: the new queue (depth 20; \<open>undefined\<close> cannot come
  back from a call at depth 20), \<open>updateFileSizes\<close> (one \<open>ls\<close> per symbolic link, on the
  scan session), the sort, the first call of \<open>downloadNextInQueue\<close>.
\<close>

definition scanSucceeded :: "config \<Rightarrow> nat \<Rightarrow> listing list \<Rightarrow> downloader \<Rightarrow> downloader" where
  "scanSucceeded cfg ftp data s =
     (case fst (processFilesJSON data (syncRoot cfg) 20 [] []) of
        None \<Rightarrow> s
      | Some entries \<Rightarrow>
          (let refs = [nextRef s ..< nextRef s + length entries];
               s1 = s\<lparr>store := allocate entries (nextRef s) (store s),
                       nextRef := nextRef s + length entries,
                       downloadQueue := refs\<rparr>;
               s2 = s1\<lparr>pendingLs := pendingLs s1
                          @ map (\<lambda>f. (ftp, f)) (filter (\<lambda>f. isSymLink (store s1 f)) refs)\<rparr>;
               s3 = s2\<lparr>downloadQueue := sortNewestFirst (store s2) (downloadQueue s2)\<rparr>
           in downloadNextInQueue cfg s3))"

text \<open>
  \<open>ftpProgressUpdate\<close>: the first entry of the queue with the file name of the event gets
  its count of transferred bytes.
\<close>

fun ftpProgressUpdate :: "string \<Rightarrow> nat \<Rightarrow> nat list \<Rightarrow> (nat \<Rightarrow> ftp_file) \<Rightarrow> (nat \<Rightarrow> ftp_file)" where
  "ftpProgressUpdate filename n [] st = st"
| "ftpProgressUpdate filename n (file # rest) st =
     (if fullPath (st file) = filename then st(file := (st file)\<lparr>transferred := n\<rparr>)
      else ftpProgressUpdate filename n rest st)"

text \<open>
  What the event loop delivers: a request for a sync (from outside), a timer that fires
  (\<open>syncRequest\<close> again), an event \<open>error\<close> or \<open>timeout\<close> of a session (every listener
  registered on it runs, in registration order, those added meanwhile do not), and the
  callbacks of \<open>lsr\<close>, \<open>ls\<close> and \<open>get\<close> (\<open>Some\<close> error, or the result). A callback runs
  for a pending request only, a timer fires when armed.
\<close>

datatype event =
    SyncRequest
  | TimerFired nat
  | SessionError nat
  | SessionTimeout nat
  | ScanDone nat "string option" "listing list"
  | LsDone nat nat "string option" "listing list"
  | GetDone nat nat "string option"
  | Progress nat string nat

fun runListeners :: "config \<Rightarrow> nat \<Rightarrow> nat list \<Rightarrow> downloader \<Rightarrow> downloader" where
  "runListeners cfg ftp [] s = s"
| "runListeners cfg ftp (file # rest) s = runListeners cfg ftp rest (ftpDownloadError cfg file ftp s)"

definition sessionFailed :: "config \<Rightarrow> nat \<Rightarrow> downloader \<Rightarrow> downloader" where
  "sessionFailed cfg ftp s =
     runListeners cfg ftp (listeners s ftp)
       (if ftp \<in> set (scanListeners s) then downloadCompleteCallback cfg s else s)"

fun step :: "config \<Rightarrow> event \<Rightarrow> downloader \<Rightarrow> downloader" where
  "step cfg SyncRequest s = syncRequest cfg s"
| "step cfg (TimerFired t) s =
     (if t \<in> set (map fst (timers s))
      then syncRequest cfg (s\<lparr>timers := filter (\<lambda>x. fst x \<noteq> t) (timers s)\<rparr>)
      else s)"
| "step cfg (SessionError ftp) s = sessionFailed cfg ftp s"
| "step cfg (SessionTimeout ftp) s = sessionFailed cfg ftp s"
| "step cfg (ScanDone ftp err data) s =
     (if ftp \<in> set (pendingScans s)
      then (let s1 = s\<lparr>pendingScans := remove1 ftp (pendingScans s)\<rparr>
            in case err of
                 Some e \<Rightarrow> downloadCompleteCallback cfg s1
               | None \<Rightarrow> scanSucceeded cfg ftp data s1)
      else s)"
| "step cfg (LsDone ftp file err data) s =
     (if (ftp, file) \<in> set (pendingLs s)
      then (let s1 = s\<lparr>pendingLs := remove1 (ftp, file) (pendingLs s)\<rparr>
            in if err \<noteq> None \<or> length data \<noteq> 1 then s1
               else s1\<lparr>store := (store s1)(file := setTargetData (hd data) (store s1 file))\<rparr>)
      else s)"
| "step cfg (GetDone ftp file err) s =
     (if (ftp, file) \<in> set (pendingGets s)
      then (let s1 = s\<lparr>pendingGets := remove1 (ftp, file) (pendingGets s)\<rparr>
            in case err of
                 Some e \<Rightarrow> ftpDownloadError cfg file ftp s1
               | None \<Rightarrow> downloadSucceeded cfg file ftp s1)
      else s)"
| "step cfg (Progress ftp filename n) s =
     (if 0 < progressListeners s ftp
      then s\<lparr>store := ftpProgressUpdate filename n (downloadQueue s) (store s)\<rparr>
      else s)"

fun run :: "config \<Rightarrow> event list \<Rightarrow> downloader \<Rightarrow> downloader" where
  "run cfg [] s = s"
| "run cfg (e # es) s = run cfg es (step cfg e s)"

text \<open>
  \<open>status\<close>. Modelled from the spec: \<open>FtpFile.json\<close> (objects/FtpFile is not among the
  sources), the per-entry fields of the snapshot. The method reads the fields of the class
  and assigns none: the model returns the state it was given beside the result.
\<close>

record file_json =
  json_path :: string
  json_size :: nat
  json_transferred :: nat
  json_downloading :: bool

record stats =
  download_rate :: real
  max_download_rate :: nat
  num_connections :: nat
  max_num_connections :: nat

record status_snapshot =
  stats_of :: stats
  downloads :: "file_json list"

definition json :: "ftp_file \<Rightarrow> file_json" where
  "json file = \<lparr> json_path = fullPath file, json_size = fsize file,
                 json_transferred = transferred file, json_downloading = downloading file \<rparr>"

fun pushDownloads :: "(nat \<Rightarrow> ftp_file) \<Rightarrow> nat list \<Rightarrow> file_json list \<Rightarrow> file_json list" where
  "pushDownloads st [] ds = ds"
| "pushDownloads st (file # rest) ds = pushDownloads st rest (ds @ [json (st file)])"

definition status :: "downloader \<Rightarrow> status_snapshot \<times> downloader" where
  "status s =
     (\<lparr> stats_of = \<lparr> download_rate = 56.3, max_download_rate = 5000001,
                     num_connections = 1, max_num_connections = 2 \<rparr>,
        downloads = pushDownloads (store s) (downloadQueue s) [] \<rparr>, s)"

subsection \<open>Concrete inputs\<close>

text \<open>
  A configuration with two concurrent downloads and no path mapping, and two files of a
  listing, used where a statement is evaluated at a concrete input.
\<close>

definition cfg_example :: config where
  "cfg_example = \<lparr> countMax = 2, pathMappings = [], localSyncRoot = ''/local'',
                    syncRoot = ''/sync'', deleteRemoteFiles = False,
                    pollingIntervalInSeconds = 60 \<rparr>"

definition file_a :: listing where
  "file_a = Listing ''a.avi'' FTP_TYPE_FILE 10 5 None"

definition file_b :: listing where
  "file_b = Listing ''b.avi'' FTP_TYPE_FILE 20 4 None"

subsection \<open>The resumable transfer \<open>FtpDownloader\<close>\<close>

text \<open>
  The values \<open>downloadDone\<close> receives as \<open>err\<close>. A falsy \<open>err\<close> is \<open>None\<close>. The session's
  event \<open>error\<close> carries an error object, its event \<open>timeout\<close> makes the string
  \<open>timeout\<close>, the socket's event \<open>close\<close> carries the boolean \<open>hadError\<close> (\<open>true\<close> is an
  error, \<open>false\<close> is none), the callback of \<open>getGetSocket\<close> carries an error or none; the
  exceptions of \<open>openSync\<close>, \<open>closeSync\<close> and \<open>renameSync\<close> are caught and become
  \<open>err\<close>; the string \<open>Not completely downloaded\<close> is set by the size check.
\<close>

datatype failure =
    SessionFailure string
  | Timeout
  | StreamFailure string
  | SocketHadError
  | OpenFailure
  | CloseFailure
  | RenameFailure
  | NotCompletelyDownloaded

text \<open>
  The file system as the transfer sees it: the size of the file at each path, the open
  descriptors with the path they were opened on, the next descriptor number. Which of the
  calls \<open>openSync\<close>, \<open>closeSync\<close> and \<open>renameSync\<close> throw is chosen by the environment
  (\<open>faults\<close>); \<open>statSync\<close> throws when there is no file at the path, \<open>closeSync\<close> and
  \<open>writeSync\<close> also when the descriptor is not open. \<open>mkdirp.sync\<close> throws when the
  destination directory cannot be made; no file can be opened in such a directory, so
  \<open>mkdirp_throws\<close> says, where \<open>open_throws\<close> holds, that creating the directory throws
  already.
\<close>

record filesystem =
  files :: "string \<Rightarrow> nat option"
  descriptors :: "nat \<Rightarrow> string option"
  nextFd :: nat

record faults =
  open_throws :: bool
  close_throws :: bool
  rename_throws :: bool
  mkdirp_throws :: bool

record sock =
  destroyed :: bool
  bytesRead :: nat

text \<open>
  The variables of one call of \<open>start\<close> and what its closures share: the entry
  (\<open>this._file\<close>, the same object as \<open>file\<close>), the two paths, the session \<open>ftp\<close>
  (\<open>session\<close>), the file system (\<open>fsys\<close>), \<open>fd\<close>,
  \<open>socket\<close> and \<open>skipBytes\<close> (\<open>None\<close> while undefined), the flag \<open>called\<close> of the
  wrapper \<open>once\<close>, the samples given to the speed average, the pool of the controller.
  For the statements: \<open>signals\<close> counts the calls of the wrapped \<open>downloadDone\<close>,
  \<open>finalized\<close> the runs of its body, \<open>callbacks\<close> lists the calls of the completion
  callback with their arguments, \<open>streamRequests\<close> the calls of \<open>getGetSocket\<close> with path
  and offset, \<open>crashed\<close> is set by an exception that no handler catches (no event is
  handled after it). The rate \<open>downloadRate\<close> (a clock-based average) is left out.
\<close>

record transfer =
  entry :: ftp_file
  local_path :: string
  temp_path :: string
  session :: nat
  fd :: "nat option"
  socket :: "sock option"
  skipBytes :: "nat option"
  called :: bool
  signals :: nat
  finalized :: nat
  callbacks :: "(failure option \<times> ftp_file) list"
  streamRequests :: "(string \<times> nat) list"
  samples :: "nat list"
  pool :: "nat list"
  fsys :: filesystem
  env :: faults
  crashed :: bool

text \<open>\<open>fs.renameSync\<close>: the file moves to the new path, replacing what was there.\<close>

definition renameSync :: "string \<Rightarrow> string \<Rightarrow> filesystem \<Rightarrow> filesystem" where
  "renameSync old new f = f\<lparr>files := (files f)(new := files f old, old := None)\<rparr>"

text \<open>
  \<open>if (fd) { try { fs.closeSync(fd) } catch ... { err = exception } }\<close>: the descriptor
  0 and \<open>undefined\<close> are falsy.
\<close>

definition closeFails :: "transfer \<Rightarrow> bool" where
  "closeFails t =
     (case fd t of
        None \<Rightarrow> False
      | Some d \<Rightarrow> d \<noteq> 0 \<and> (close_throws (env t) \<or> descriptors (fsys t) d = None))"

definition closeFd :: "failure option \<Rightarrow> transfer \<Rightarrow> failure option \<times> transfer" where
  "closeFd err t =
     (case fd t of
        None \<Rightarrow> (err, t)
      | Some d \<Rightarrow>
          if d = 0 then (err, t)
          else if close_throws (env t) \<or> descriptors (fsys t) d = None
          then (Some CloseFailure, t)
          else (err, t\<lparr>fsys := (fsys t)\<lparr>descriptors := (descriptors (fsys t))(d := None)\<rparr>\<rparr>))"

text \<open>
  Modelled from the spec: \<open>FtpController.doneWithFtpObj\<close> (FtpController is not among the
  sources), the release of the spec's pool, as the method of that name of \<open>Downloader\<close>:
  the session is pushed on the pool.

  The body of \<open>downloadDone\<close> in three parts. \<open>releaseSession\<close>: the socket destroyed when
  there is one, the session back to the pool. \<open>closeFd\<close> above: the descriptor closed.
  \<open>checkAndPublish\<close>: without an error so far, the size check (\<open>statSync\<close> is outside
  every \<open>try\<close>: when it throws, the rest of the body does not run) and, when it passes,
  the rename; then, on every path, the flag of the entry and the completion callback.
\<close>

definition releaseSession :: "transfer \<Rightarrow> transfer" where
  "releaseSession t =
     (let t1 = (case socket t of
                  None \<Rightarrow> t
                | Some sk \<Rightarrow> t\<lparr>socket := Some (sk\<lparr>destroyed := True\<rparr>)\<rparr>)
      in t1\<lparr>pool := pool t1 @ [session t1]\<rparr>)"

definition checkAndPublish :: "failure option \<Rightarrow> transfer \<Rightarrow> transfer" where
  "checkAndPublish err1 t3 =
     (if err1 = None \<and> files (fsys t3) (temp_path t3) = None
      then t3\<lparr>crashed := True\<rparr>
      else
        (let err2 = (if err1 = None
                     then (case files (fsys t3) (temp_path t3) of
                             None \<Rightarrow> None
                           | Some localSize \<Rightarrow>
                               if localSize < fsize (entry t3)
                               then Some NotCompletelyDownloaded else None)
                     else err1);
             (err3, t4) = (if err2 = None
                           then (if rename_throws (env t3) then (Some RenameFailure, t3)
                                 else (None, t3\<lparr>fsys := renameSync (temp_path t3)
                                                       (local_path t3) (fsys t3)\<rparr>))
                           else (err2, t3));
             t5 = t4\<lparr>entry := (entry t4)\<lparr>downloading := False\<rparr>\<rparr>
         in t5\<lparr>callbacks := callbacks t5 @ [(err3, entry t5)]\<rparr>))"

definition downloadDone :: "failure option \<Rightarrow> transfer \<Rightarrow> transfer" where
  "downloadDone err t =
     (let (err1, t3) = closeFd err (releaseSession t) in checkAndPublish err1 t3)"

text \<open>
  \<open>downloadDone = once(downloadDone)\<close>: the package \<open>once\<close> sets \<open>called\<close> before it
  calls the function, and does nothing on a later call.
\<close>

definition downloadDone_once :: "failure option \<Rightarrow> transfer \<Rightarrow> transfer" where
  "downloadDone_once err t =
     (let t1 = t\<lparr>signals := Suc (signals t)\<rparr>
      in if called t1 then t1
         else downloadDone err (t1\<lparr>called := True, finalized := Suc (finalized t1)\<rparr>))"

text \<open>
  Modelled from the spec: \<open>FtpController.ftpForDownloading\<close> (FtpController is not among
  the sources), the acquire of the spec's pool, as the method of that name of
  \<open>Downloader\<close>: the last session of the pool, or a new one when the pool is empty.

  \<open>start\<close>, up to the call of \<open>getGetSocket\<close>. The arguments are the function
  \<open>Utils.sanitizeFtpPath\<close> (not among the sources), the entry and the destination directory
  of the constructor, the pool and the number of the next new session, the file system and
  the faults of the environment. \<open>mkdirp.sync\<close> is called after the two assignments to
  the entry and outside every \<open>try\<close> (the function passed to it is not called): when it
  throws, \<open>start\<close> ends there, with no session taken from the pool, no listener
  registered and no \<open>downloadDone\<close> (\<open>startThrew\<close>). Opening for append creates the file
  when there is none; its size is \<open>skipBytes\<close>.
\<close>

definition startThrew :: "transfer \<Rightarrow> nat list \<Rightarrow> transfer" where
  "startThrew t0 pool0 = t0\<lparr>pool := pool0, crashed := True\<rparr>"

definition start ::
    "(string \<Rightarrow> string) \<Rightarrow> ftp_file \<Rightarrow> string \<Rightarrow> nat list \<Rightarrow> nat \<Rightarrow> filesystem \<Rightarrow> faults
       \<Rightarrow> transfer" where
  "start sanitizeFtpPath file0 localDirectory pool0 newFtp fs0 faults0 =
     (let file1 = file0\<lparr>destinationRoot := localDirectory, downloading := True\<rparr>;
          localPath = appendSlash localDirectory @ sanitizeFtpPath (name file1);
          tempPath = localPath @ ''.tmp'';
          t0 = \<lparr> entry = file1,
                 local_path = localPath,
                 temp_path = tempPath,
                 session = (if pool0 = [] then newFtp else last pool0),
                 fd = None,
                 socket = None,
                 skipBytes = None,
                 called = False,
                 signals = 0,
                 finalized = 0,
                 callbacks = [],
                 streamRequests = [],
                 samples = [],
                 pool = butlast pool0,
                 fsys = fs0,
                 env = faults0,
                 crashed = False \<rparr>
      in if open_throws faults0 \<and> mkdirp_throws faults0 then startThrew t0 pool0
         else if open_throws faults0 then downloadDone_once (Some OpenFailure) t0
         else
           (let d = nextFd fs0;
                k = (case files fs0 tempPath of None \<Rightarrow> 0 | Some n \<Rightarrow> n)
            in t0\<lparr>fsys := fs0\<lparr>files := (files fs0)(tempPath := Some k),
                              descriptors := (descriptors fs0)(d := Some tempPath),
                              nextFd := Suc d\<rparr>,
                   fd := Some d,
                   skipBytes := Some k,
                   entry := file1\<lparr>transferred := k\<rparr>,
                   streamRequests := [(fullPath file1, k)]\<rparr>))"

text \<open>
  What arrives after \<open>start\<close>: the session's events \<open>error\<close> and \<open>timeout\<close> (their
  listeners are registered before the file is opened), the callback of \<open>getGetSocket\<close>
  (only after a request; with an error, or with the paused socket that gets the listeners
  of \<open>data\<close> and \<open>close\<close> and is resumed), a chunk of data and the event \<open>close\<close> of the
  socket (only from a socket with listeners; no data from a destroyed socket).
\<close>

datatype signal =
    FtpError string
  | FtpTimeout
  | GetSocketDone "string option"
  | SocketData nat
  | SocketClose bool

definition socketData :: "nat \<Rightarrow> sock \<Rightarrow> transfer \<Rightarrow> transfer" where
  "socketData n sk t =
     (case fd t of
        None \<Rightarrow> t\<lparr>crashed := True\<rparr>
      | Some d \<Rightarrow>
          (case descriptors (fsys t) d of
             None \<Rightarrow> t\<lparr>crashed := True\<rparr>
           | Some p \<Rightarrow>
               (let size0 = (case files (fsys t) p of None \<Rightarrow> 0 | Some k \<Rightarrow> k);
                    sk1 = sk\<lparr>bytesRead := bytesRead sk + n\<rparr>;
                    skip = (case skipBytes t of None \<Rightarrow> 0 | Some k \<Rightarrow> k)
                in t\<lparr>fsys := (fsys t)\<lparr>files := (files (fsys t))(p := Some (size0 + n))\<rparr>,
                      socket := Some sk1,
                      entry := (entry t)\<lparr>transferred := bytesRead sk1 + skip\<rparr>,
                      samples := samples t @ [n]\<rparr>)))"

fun handle :: "signal \<Rightarrow> transfer \<Rightarrow> transfer" where
  "handle (FtpError e) t =
     (if crashed t then t else downloadDone_once (Some (SessionFailure e)) t)"
| "handle FtpTimeout t =
     (if crashed t then t else downloadDone_once (Some Timeout) t)"
| "handle (GetSocketDone r) t =
     (if crashed t \<or> streamRequests t = [] then t
      else (case r of
              Some e \<Rightarrow> downloadDone_once (Some (StreamFailure e)) (t\<lparr>socket := None\<rparr>)
            | None \<Rightarrow> t\<lparr>socket := Some \<lparr>destroyed = False, bytesRead = 0\<rparr>\<rparr>))"
| "handle (SocketData n) t =
     (if crashed t then t
      else (case socket t of
              None \<Rightarrow> t
            | Some sk \<Rightarrow> if destroyed sk then t else socketData n sk t))"
| "handle (SocketClose hadError) t =
     (if crashed t then t
      else (case socket t of
              None \<Rightarrow> t
            | Some sk \<Rightarrow>
                downloadDone_once (if hadError then Some SocketHadError else None)
                  (t\<lparr>socket := Some (sk\<lparr>destroyed := True\<rparr>)\<rparr>)))"

fun attempt :: "signal list \<Rightarrow> transfer \<Rightarrow> transfer" where
  "attempt [] t = t"
| "attempt (e # es) t = attempt es (handle e t)"

text \<open>Concrete inputs of a transfer: an entry of 100 bytes, an empty file system, no fault.\<close>

definition entry_example :: ftp_file where
  "entry_example = \<lparr> name = ''ep1.avi'', relativeDirectory = ''tv/showA/'',
                      fullPath = ''/sync/tv/showA/ep1.avi'', isSymLink = False, fsize = 100,
                      mtime = 5, downloading = False, transferred = 0,
                      destinationRoot = [] \<rparr>"

definition fs_empty :: filesystem where
  "fs_empty = \<lparr> files = (\<lambda>_. None), descriptors = (\<lambda>_. None), nextFd = 3 \<rparr>"

definition no_faults :: faults where
  "no_faults = \<lparr> open_throws = False, close_throws = False, rename_throws = False,
                  mkdirp_throws = False \<rparr>"

text \<open>The number of calls of \<open>ftp.get\<close> made so far for an entry of the orchestrator.\<close>

definition requestsFor :: "nat \<Rightarrow> downloader \<Rightarrow> nat" where
  "requestsFor f s = length (filter (\<lambda>r. fst r = f) (getRequests s))"

definition fs_partial :: filesystem where
  "fs_partial = fs_empty\<lparr>files := (files fs_empty)(''/local/tv/showA/ep1.avi.tmp'' := Some 40)\<rparr>"

definition fs_complete :: filesystem where
  "fs_complete = fs_empty\<lparr>files := (files fs_empty)(''/local/tv/showA/ep1.avi.tmp'' := Some 100)\<rparr>"

subsection \<open>The invariant of the once-guarded finalize\<close>

text \<open>
  What holds of a transfer after \<open>start\<close> and after every event: the completion callback
  and the body of \<open>downloadDone\<close> ran once if a signal has called the wrapper and not at
  all otherwise; and as long as no signal has come and nothing has thrown, the temp file
  exists and the descriptor is open on it.
\<close>

definition once_inv :: "transfer \<Rightarrow> bool" where
  "once_inv t =
     (length (callbacks t) = min 1 (signals t)
      \<and> finalized t = min 1 (signals t)
      \<and> (called t \<longleftrightarrow> 0 < signals t)
      \<and> (\<not> called t \<and> \<not> crashed t \<longrightarrow>
            files (fsys t) (temp_path t) \<noteq> None
            \<and> (\<exists>d. fd t = Some d \<and> descriptors (fsys t) d = Some (temp_path t))))"

section \<open>Proofs\<close>

subsection \<open>Path mapping\<close>

lemma indexOf_ge: "- 1 \<le> indexOf s t"
  by (induction s) (auto simp: Let_def)

lemma indexOf_zero_iff: "indexOf s t = 0 \<longleftrightarrow> prefix t s"
proof (cases s)
  case Nil
  then show ?thesis by auto
next
  case (Cons c r)
  have "- 1 \<le> indexOf r t" by (rule indexOf_ge)
  then show ?thesis using Cons by (auto simp: Let_def)
qed

lemma getDestinationDirectory_refines:
  "getDestinationDirectory rules sroot file = resolve_spec rules sroot file"
  by (induction rules) (simp_all add: resolve_spec_def Let_def indexOf_zero_iff substring_def)

lemma destination_tv:
  "getDestinationDirectory
     [\<lparr>remotePath = ''tv/'', localPath = ''/local/tv''\<rparr>,
      \<lparr>remotePath = [], localPath = ''/local/default''\<rparr>]
     sroot (file\<lparr>relativeDirectory := ''tv/showA/''\<rparr>) = ''/local/tv/showA/''"
  by (simp add: appendSlash_def Let_def substring_def)

lemma destination_movies:
  "getDestinationDirectory
     [\<lparr>remotePath = ''tv/'', localPath = ''/local/tv''\<rparr>,
      \<lparr>remotePath = [], localPath = ''/local/default''\<rparr>]
     sroot (file\<lparr>relativeDirectory := ''movies/''\<rparr>) = ''/local/default/movies/''"
  by (simp add: appendSlash_def Let_def substring_def)

text \<open>
  C5. For every entry, rule list and default root, \<open>getDestinationDirectory\<close> is the
  directory the claim describes (\<open>resolve_spec\<close>: first rule, in order, whose
  slash-terminated remote path is a prefix of the relative directory; prefix stripped, rest
  appended to the slash-terminated local path; the default root otherwise). With the rule
  \<open>tv/\<close> to \<open>/local/tv\<close> followed by the rule of the empty remote path to
  \<open>/local/default\<close>, whatever the default root, \<open>tv/showA/\<close> resolves to
  \<open>/local/tv/showA/\<close> and \<open>movies/\<close> to \<open>/local/default/movies/\<close>.
\<close>

theorem C5_destination_directory:
  "getDestinationDirectory rules sroot file = resolve_spec rules sroot file
   \<and> getDestinationDirectory
         [\<lparr>remotePath = ''tv/'', localPath = ''/local/tv''\<rparr>,
          \<lparr>remotePath = [], localPath = ''/local/default''\<rparr>]
         sroot (file\<lparr>relativeDirectory := ''tv/showA/''\<rparr>) = ''/local/tv/showA/''
   \<and> getDestinationDirectory
         [\<lparr>remotePath = ''tv/'', localPath = ''/local/tv''\<rparr>,
          \<lparr>remotePath = [], localPath = ''/local/default''\<rparr>]
         sroot (file\<lparr>relativeDirectory := ''movies/''\<rparr>) = ''/local/default/movies/''"
  using getDestinationDirectory_refines destination_tv destination_movies by blast

subsection \<open>Flattening the listing\<close>

lemma walk_tags: "(k, e) \<in> set (walk j b r x) \<Longrightarrow> j \<le> k"
proof (induction j b r x arbitrary: k e rule: walk.induct)
  case (1 j b r n t sz tm ch)
  show ?case
  proof (cases "t = FTP_TYPE_DIRECTORY")
    case True
    then show ?thesis using 1 by (cases ch) (auto, force)
  next
    case False
    then show ?thesis using "1.prems" by (auto split: if_splits)
  qed
qed

lemma walk_all_tags: "(k, e) \<in> set (walk_all j b r xs) \<Longrightarrow> j \<le> k"
  by (auto simp: walk_all_def dest: walk_tags)

lemma upto_depth_none: "upto_depth j (walk_all j b r xs) = []"
  by (auto simp: upto_depth_def filter_empty_conv dest: walk_all_tags)

lemma upto_depth_append: "upto_depth d (xs @ ys) = upto_depth d xs @ upto_depth d ys"
  by (simp add: upto_depth_def)

lemma walk_all_Cons: "walk_all k b r (x # xs) = walk k b r x @ walk_all k b r xs"
  by (simp add: walk_all_def)

lemma walk_all_Nil: "walk_all k b r [] = []"
  by (simp add: walk_all_def)

text \<open>
  The loop at remaining depth \<open>d > 0\<close>, entered below \<open>j\<close> directories, appends the
  entries enclosed by fewer than \<open>j + d\<close> directories; by induction along the recursion
  of the two functions.
\<close>

lemma process_walk:
  "snd (processFilesJSON data b d relp out)
     = out @ upto_depth (j + d) (walk_all j b (appendSlash relp) data)"
  "0 < d \<Longrightarrow> processFilesLoop data b d rel out
     = out @ upto_depth (j + d) (walk_all j b rel data)"
proof (induction data b d relp out and data b d rel out arbitrary: j and j
       rule: processFilesJSON_processFilesLoop.induct)
  case (1 data basePath depth relativePath outList)
  then show ?case by (auto simp: Let_def upto_depth_none)
next
  case (2 basePath depth relativePath outList)
  then show ?case by (simp add: walk_all_Nil upto_depth_def)
next
  case (3 n t sz tm ch rest basePath depth relativePath outList)
  show ?case
  proof (cases "t = FTP_TYPE_SYM_LINK \<or> t = FTP_TYPE_FILE")
    case True
    then show ?thesis using 3(1)[OF True "3.prems", of j] "3.prems"
      by (auto simp: walk_all_Cons upto_depth_def)
  next
    case False
    note nf = False
    show ?thesis
    proof (cases "t = FTP_TYPE_DIRECTORY")
      case True
      show ?thesis
      proof (cases ch)
        case None
        then show ?thesis using 3(2)[OF nf True None "3.prems", of j] nf True
          by (auto simp: walk_all_Cons upto_depth_def)
      next
        case (Some children)
        have a: "snd (processFilesJSON children basePath (depth - 1) (relativePath @ n) outList)
           = outList @ upto_depth (Suc j + (depth - 1))
               (walk_all (Suc j) basePath (appendSlash (relativePath @ n)) children)"
          using 3(3)[OF nf True Some, of "Suc j"] .
        have b: "Suc j + (depth - 1) = j + depth" using "3.prems" by simp
        show ?thesis using 3(4)[OF nf True Some "3.prems", of j] nf True Some a b
          by (simp add: walk_all_Cons upto_depth_append walk_all_def)
      qed
    next
      case False
      then show ?thesis using 3(5)[OF nf False "3.prems", of j] nf
        by (auto simp: walk_all_Cons upto_depth_def)
    qed
  qed
qed

lemma flatten_array:
  "snd (processFilesJSON data b d relp out)
     = out @ upto_depth d (walk_all 0 b (appendSlash relp) data)"
  using process_walk(1)[of data b d relp out 0] by simp

lemma flatten_result:
  "fst (processFilesJSON data b d relp out)
     = (if d = 0 then None
        else Some (out @ upto_depth d (walk_all 0 b (appendSlash relp) data)))"
proof -
  have f: "fst (processFilesJSON data b d relp out)
     = (if d = 0 then None else Some (snd (processFilesJSON data b d relp out)))"
    by (simp add: Let_def)
  show ?thesis by (subst f, subst flatten_array, rule refl)
qed

text \<open>
  C6. For every listing, base path, relative path, array \<open>outList\<close> and depth \<open>d\<close>, the
  array after \<open>processFilesJSON\<close> is \<open>outList\<close> (what was collected is kept) followed by
  the entries of the files and symbolic links enclosed by fewer than \<open>d\<close> directories, in
  listing order: each descent into a directory takes one unit of depth, a call at depth 0
  adds nothing and raises nothing, deeper files are left out. The value returned is that
  array, except that a call at depth 0 returns \<open>undefined\<close> (its result is dropped by the
  recursive caller; the orchestrator calls with depth 20).
\<close>

theorem C6_flatten_depth_bounded:
  "snd (processFilesJSON data b d relp out)
     = out @ upto_depth d (walk_all 0 b (appendSlash relp) data)
   \<and> fst (processFilesJSON data b d relp out)
     = (if d = 0 then None
        else Some (out @ upto_depth d (walk_all 0 b (appendSlash relp) data)))"
  using flatten_array[of data b d relp out] flatten_result[of data b d relp out] by (rule conjI)

subsection \<open>Selection under the concurrency cap\<close>

text \<open>
  The equation of \<open>downloadNextInQueue\<close> is used one unfolding at a time.
\<close>

declare downloadNextInQueue.simps [simp del]

lemma scanQueue_eq:
  "scanQueue st q c nf =
     (c + length (filter (\<lambda>f. downloading (st f)) q),
      if nf = None then find (\<lambda>f. \<not> downloading (st f)) q else nf)"
  by (induction q arbitrary: c nf) auto

lemma getNext_eq:
  "getNextFileToDownload cfg s =
     (if downloadingCount s < countMax cfg then firstNotDownloading s else None)"
  by (simp add: getNextFileToDownload_def scanQueue_eq downloadingCount_def firstNotDownloading_def)

lemma count_mark:
  "distinct q \<Longrightarrow>
   length (filter (\<lambda>x. downloading ((st(f := (st f)\<lparr>downloading := True\<rparr>)) x)) q)
     \<le> Suc (length (filter (\<lambda>x. downloading (st x)) q))"
proof (induction q)
  case Nil
  then show ?case by simp
next
  case (Cons a q)
  show ?case
  proof (cases "a = f")
    case True
    then have "f \<notin> set q" using Cons.prems by simp
    then have "filter (\<lambda>x. downloading ((st(f := (st f)\<lparr>downloading := True\<rparr>)) x)) q
                 = filter (\<lambda>x. downloading (st x)) q"
      by (intro filter_cong) auto
    then show ?thesis using True by simp
  next
    case False
    then show ?thesis using Cons by simp
  qed
qed

lemma count_unmark:
  "length (filter (\<lambda>x. downloading ((st(f := (st f)\<lparr>downloading := False\<rparr>)) x)) q)
     \<le> length (filter (\<lambda>x. downloading (st x)) q)"
  by (induction q) auto

lemma dispatch_bound:
  assumes "getNextFileToDownload cfg s = Some f" "distinct (downloadQueue s)"
  shows "downloadingCount (dispatch cfg f s) \<le> countMax cfg"
proof -
  have "downloadingCount s < countMax cfg"
    using assms(1) by (simp add: getNext_eq split: if_splits)
  moreover have "downloadingCount (dispatch cfg f s) \<le> Suc (downloadingCount s)"
    unfolding downloadingCount_def dispatch_store dispatch_queue
    by (rule count_mark[OF assms(2)])
  ultimately show ?thesis by simp
qed

lemma startSync_keeps:
  "downloadQueue (startSync cfg s) = downloadQueue s" "store (startSync cfg s) = store s"
  by (simp_all add: startSync_def newJSFtp_def Let_def split: prod.splits)

lemma complete_keeps:
  "downloadQueue (downloadCompleteCallback cfg s) = downloadQueue s"
  "store (downloadCompleteCallback cfg s) = store s"
  by (simp_all add: downloadCompleteCallback_def startSync_keeps Let_def)

lemma syncRequest_keeps:
  "downloadQueue (syncRequest cfg s) = downloadQueue s" "store (syncRequest cfg s) = store s"
  by (simp_all add: syncRequest_def startSync_keeps)

lemma complete_count: "downloadingCount (downloadCompleteCallback cfg s) = downloadingCount s"
  by (simp add: downloadingCount_def complete_keeps)

lemma dniq_queue: "downloadQueue (downloadNextInQueue cfg s) = downloadQueue s"
proof (induction cfg s rule: downloadNextInQueue.induct)
  case (1 cfg s)
  show ?case
  proof (cases "getNextFileToDownload cfg s")
    case None
    then show ?thesis by (subst downloadNextInQueue.simps) (simp add: complete_keeps)
  next
    case (Some f)
    then show ?thesis using 1[OF Some]
      by (subst downloadNextInQueue.simps) (simp add: dispatch_queue)
  qed
qed

lemma dniq_bound:
  "distinct (downloadQueue s) \<Longrightarrow> downloadingCount s \<le> countMax cfg
     \<Longrightarrow> downloadingCount (downloadNextInQueue cfg s) \<le> countMax cfg"
proof (induction cfg s rule: downloadNextInQueue.induct)
  case (1 cfg s)
  show ?case
  proof (cases "getNextFileToDownload cfg s")
    case None
    then show ?thesis using "1.prems"
      by (subst downloadNextInQueue.simps) (simp add: complete_count)
  next
    case (Some f)
    have "downloadingCount (downloadNextInQueue cfg (dispatch cfg f s)) \<le> countMax cfg"
      using "1.IH"[OF Some] "1.prems"(1) dispatch_bound[OF Some "1.prems"(1)]
      by (simp add: dispatch_queue)
    then show ?thesis using Some by (subst downloadNextInQueue.simps) simp
  qed
qed

lemma release_keeps:
  "downloadQueue (releaseAfterError f ftp s) = downloadQueue s"
  "store (releaseAfterError f ftp s) = (store s)(f := (store s f)\<lparr>downloading := False\<rparr>)"
  by (simp_all add: releaseAfterError_def doneWithFtpObj_def)

lemma release_count: "downloadingCount (releaseAfterError f ftp s) \<le> downloadingCount s"
  unfolding downloadingCount_def release_keeps by (rule count_unmark)

lemma error_inv:
  assumes "distinct (downloadQueue s)" "downloadingCount s \<le> countMax cfg"
  shows "distinct (downloadQueue (ftpDownloadError cfg f ftp s))
         \<and> downloadingCount (ftpDownloadError cfg f ftp s) \<le> countMax cfg"
proof -
  have "downloadingCount (releaseAfterError f ftp s) \<le> countMax cfg"
    using release_count[of f ftp s] assms(2) by simp
  then show ?thesis using assms(1)
    by (simp add: ftpDownloadError_def dniq_queue dniq_bound release_keeps)
qed

lemma removeFile_set: "set (removeFileFromQueue f q) \<subseteq> set q"
  by (induction f q rule: removeFileFromQueue.induct) (auto split: list.splits)

lemma removeFile_distinct: "distinct q \<Longrightarrow> distinct (removeFileFromQueue f q)"
proof (induction f q rule: removeFileFromQueue.induct)
  case (1 f)
  then show ?case by simp
next
  case (2 f x queue)
  show ?case
  proof (cases "x = f")
    case True
    show ?thesis
    proof (cases queue)
      case Nil
      then show ?thesis using True by simp
    next
      case (Cons y rest)
      then show ?thesis using True 2 removeFile_set[of f rest] by auto
    qed
  next
    case False
    then show ?thesis using 2 removeFile_set[of f queue] by auto
  qed
qed

lemma removeFile_count:
  "length (filter P (removeFileFromQueue f q)) \<le> length (filter P q)"
proof (induction f q rule: removeFileFromQueue.induct)
  case (1 f)
  then show ?case by simp
next
  case (2 f x queue)
  show ?case
  proof (cases "x = f")
    case True
    show ?thesis
    proof (cases queue)
      case Nil
      then show ?thesis using True by simp
    next
      case (Cons y rest)
      then show ?thesis using True 2(1)[OF True Cons] by simp
    qed
  next
    case False
    then show ?thesis using 2(2)[OF False] by simp
  qed
qed

lemma success_inv:
  assumes "distinct (downloadQueue s)" "downloadingCount s \<le> countMax cfg"
  shows "distinct (downloadQueue (downloadSucceeded cfg f ftp s))
         \<and> downloadingCount (downloadSucceeded cfg f ftp s) \<le> countMax cfg"
proof -
  define s1 where "s1 = (if deleteRemoteFiles cfg
                then (let (deleteFtp, t) = newJSFtp s
                      in t\<lparr>deleteRequests := deleteRequests t @ [f]\<rparr>)
                else s)"
  define s3 where "s3 = doneWithFtpObj ftp (s1\<lparr>completedList := completedList s1 @ [f],
     downloadQueue := removeFileFromQueue f (downloadQueue s1)\<rparr>)"
  have q1: "downloadQueue s1 = downloadQueue s" and st1: "store s1 = store s"
    by (simp_all add: s1_def newJSFtp_def)
  have q3: "downloadQueue s3 = removeFileFromQueue f (downloadQueue s)" and st3: "store s3 = store s"
    by (simp_all add: s3_def doneWithFtpObj_def q1 st1)
  have d: "distinct (downloadQueue s3)"
    unfolding q3 using assms(1) by (rule removeFile_distinct)
  have c: "downloadingCount s3 \<le> countMax cfg"
    using removeFile_count[of "\<lambda>x. downloading (store s x)" f "downloadQueue s"] assms(2)
    by (simp add: downloadingCount_def q3 st3)
  have e: "downloadSucceeded cfg f ftp s = downloadNextInQueue cfg s3"
    by (simp add: downloadSucceeded_def s3_def s1_def Let_def doneWithFtpObj_def)
  show ?thesis unfolding e using d c by (simp add: dniq_queue dniq_bound)
qed


lemma insertNewest_set: "set (insertNewest st x ys) = insert x (set ys)"
  by (induction ys) auto

lemma insertNewest_distinct: "distinct (insertNewest st x ys) = (x \<notin> set ys \<and> distinct ys)"
  by (induction ys) (auto simp: insertNewest_set)

lemma sortNewestFirst_set: "set (sortNewestFirst st q) = set q"
  by (induction q) (simp_all add: sortNewestFirst_def insertNewest_set)

lemma sortNewestFirst_distinct: "distinct (sortNewestFirst st q) = distinct q"
proof (induction q)
  case Nil
  then show ?case by (simp add: sortNewestFirst_def)
next
  case (Cons a q)
  have "set (foldr (insertNewest st) q []) = set q"
    using sortNewestFirst_set[of st q] by (simp add: sortNewestFirst_def)
  then show ?case using Cons by (simp add: sortNewestFirst_def insertNewest_distinct)
qed

lemma allocate_at:
  "allocate es r st x = (if r \<le> x \<and> x < r + length es then es ! (x - r) else st x)"
proof (induction es arbitrary: r st)
  case Nil
  then show ?case by auto
next
  case (Cons e es)
  have "allocate (e # es) r st x = allocate es (Suc r) (st(r := e)) x"
    by simp
  also have "\<dots> = (if Suc r \<le> x \<and> x < Suc r + length es then es ! (x - Suc r)
                     else (st(r := e)) x)"
    by (rule Cons.IH)
  also have "\<dots> = (if r \<le> x \<and> x < r + length (e # es) then (e # es) ! (x - r) else st x)"
    by (auto simp: nth_Cons')
  finally show ?case .
qed

lemma walk_fresh: "e \<in> set (walk k b r x) \<Longrightarrow> \<not> downloading (snd e)"
proof (induction k b r x rule: walk.induct)
  case (1 k b r n t sz tm ch)
  show ?case
  proof (cases "t = FTP_TYPE_DIRECTORY")
    case True
    then show ?thesis using 1 by (cases ch) auto
  next
    case False
    then show ?thesis using "1.prems" by (auto simp: new_FtpFile_def split: if_splits)
  qed
qed

lemma entries_fresh:
  assumes "fst (processFilesJSON data b d relp []) = Some entries" "e \<in> set entries"
  shows "\<not> downloading e"
proof -
  have "entries = upto_depth d (walk_all 0 b (appendSlash relp) data)"
    using flatten_result[of data b d relp "[]"] assms(1)
    by (simp split: if_splits)
  then obtain k where "(k, e) \<in> set (walk_all 0 b (appendSlash relp) data)"
    using assms(2) by (auto simp: upto_depth_def)
  then show ?thesis by (auto simp: walk_all_def dest: walk_fresh)
qed

lemma scan_inv:
  "distinct (downloadQueue (scanSucceeded cfg ftp data s))
   \<and> (distinct (downloadQueue s) \<longrightarrow> downloadingCount s \<le> countMax cfg \<longrightarrow>
        downloadingCount (scanSucceeded cfg ftp data s) \<le> countMax cfg)"
    (is "?D \<and> ?C")
proof (cases "fst (processFilesJSON data (syncRoot cfg) 20 [] [])")
  case None
  then show ?thesis by (simp add: Let_def)
next
  case (Some entries)
  define r where "r = nextRef s"
  define refs where "refs = [r ..< r + length entries]"
  define st where "st = allocate entries r (store s)"
  define s3 where "s3 = s\<lparr>store := st, nextRef := r + length entries,
     pendingLs := pendingLs s @ map (\<lambda>f. (ftp, f)) (filter (\<lambda>f. isSymLink (st f)) refs),
     downloadQueue := sortNewestFirst st refs\<rparr>"
  have e: "scanSucceeded cfg ftp data s = downloadNextInQueue cfg s3"
    using Some by (simp add: scanSucceeded_def Let_def s3_def st_def refs_def r_def)
  have d: "distinct (downloadQueue s3)"
    by (simp add: s3_def sortNewestFirst_distinct refs_def)
  have "\<not> downloading (st f)" if "f \<in> set refs" for f
  proof -
    have "st f = entries ! (f - r)" and "f - r < length entries"
      using that by (auto simp: st_def refs_def allocate_at)
    then show ?thesis using entries_fresh[OF Some] by (metis nth_mem)
  qed
  then have "filter (\<lambda>f. downloading (st f)) (sortNewestFirst st refs) = []"
    by (simp add: filter_empty_conv sortNewestFirst_set)
  then have c: "downloadingCount s3 = 0"
    by (simp add: downloadingCount_def s3_def)
  show ?thesis unfolding e using d c by (simp add: dniq_queue dniq_bound)
qed

lemma listeners_inv:
  "distinct (downloadQueue s) \<Longrightarrow> downloadingCount s \<le> countMax cfg \<Longrightarrow>
   distinct (downloadQueue (runListeners cfg ftp fs s))
   \<and> downloadingCount (runListeners cfg ftp fs s) \<le> countMax cfg"
proof (induction fs arbitrary: s)
  case Nil
  then show ?case by simp
next
  case (Cons f fs)
  show ?case using Cons.IH[of "ftpDownloadError cfg f ftp s"] error_inv[OF Cons.prems, of f ftp]
    by simp
qed

lemma step_inv:
  assumes "distinct (downloadQueue s)" "downloadingCount s \<le> countMax cfg"
  shows "distinct (downloadQueue (step cfg e s))
         \<and> downloadingCount (step cfg e s) \<le> countMax cfg"
proof (cases e)
  case SyncRequest
  then show ?thesis using assms by (simp add: downloadingCount_def syncRequest_keeps)
next
  case (TimerFired t)
  then show ?thesis using assms by (simp add: downloadingCount_def syncRequest_keeps)
next
  case (SessionError ftp)
  have "distinct (downloadQueue (if ftp \<in> set (scanListeners s) then downloadCompleteCallback cfg s else s))"
       "downloadingCount (if ftp \<in> set (scanListeners s) then downloadCompleteCallback cfg s else s) \<le> countMax cfg"
    using assms by (simp_all add: complete_keeps complete_count)
  then show ?thesis using SessionError by (simp add: sessionFailed_def listeners_inv)
next
  case (SessionTimeout ftp)
  have "distinct (downloadQueue (if ftp \<in> set (scanListeners s) then downloadCompleteCallback cfg s else s))"
       "downloadingCount (if ftp \<in> set (scanListeners s) then downloadCompleteCallback cfg s else s) \<le> countMax cfg"
    using assms by (simp_all add: complete_keeps complete_count)
  then show ?thesis using SessionTimeout by (simp add: sessionFailed_def listeners_inv)
next
  case (ScanDone ftp err data)
  define s1 where "s1 = s\<lparr>pendingScans := remove1 ftp (pendingScans s)\<rparr>"
  have a: "distinct (downloadQueue s1)" "downloadingCount s1 \<le> countMax cfg"
    using assms by (simp_all add: s1_def downloadingCount_def)
  show ?thesis
  proof (cases "ftp \<in> set (pendingScans s)")
    case True
    show ?thesis
    proof (cases err)
      case None
      then show ?thesis using ScanDone True scan_inv[of cfg ftp data s1] a
        by (simp add: Let_def s1_def)
    next
      case (Some x)
      then show ?thesis using ScanDone True a
        by (simp add: Let_def s1_def[symmetric] complete_keeps complete_count)
    qed
  next
    case False
    then show ?thesis using ScanDone assms by simp
  qed
next
  case (LsDone ftp f err data)
  have "downloading (((store s)(f := setTargetData (hd data) (store s f))) x)
          = downloading (store s x)" for x
    by (simp add: setTargetData_def)
  then show ?thesis using LsDone assms by (simp add: downloadingCount_def Let_def)
next
  case (GetDone ftp f err)
  define s1 where "s1 = s\<lparr>pendingGets := remove1 (ftp, f) (pendingGets s)\<rparr>"
  have a: "distinct (downloadQueue s1)" "downloadingCount s1 \<le> countMax cfg"
    using assms by (simp_all add: s1_def downloadingCount_def)
  show ?thesis
  proof (cases "(ftp, f) \<in> set (pendingGets s)")
    case True
    then show ?thesis using GetDone error_inv[OF a, of f ftp] success_inv[OF a, of f ftp]
      by (simp add: Let_def s1_def[symmetric] split: option.splits)
  next
    case False
    then show ?thesis using GetDone assms by simp
  qed
next
  case (Progress ftp filename n)
  have "downloading (ftpProgressUpdate filename n q st x) = downloading (st x)" for q st x
    by (induction q) auto
  then show ?thesis using Progress assms by (simp add: downloadingCount_def)
qed

lemma run_inv:
  "distinct (downloadQueue s) \<Longrightarrow> downloadingCount s \<le> countMax cfg \<Longrightarrow>
   distinct (downloadQueue (run cfg evs s)) \<and> downloadingCount (run cfg evs s) \<le> countMax cfg"
proof (induction evs arbitrary: s)
  case Nil
  then show ?case by simp
next
  case (Cons e evs)
  show ?case using Cons.IH[of "step cfg e s"] step_inv[OF Cons.prems, of e] by simp
qed

text \<open>
  C4. For every configuration and state, \<open>getNextFileToDownload\<close> is the first entry of
  the queue (in queue order) whose flag \<open>downloading\<close> is not set, and only when fewer than
  \<open>countMax\<close> entries of the queue have the flag set; otherwise it is \<open>null\<close>. After every
  sequence of events from the initial state the entries of the queue are distinct objects
  and at most \<open>countMax\<close> of them have the flag set; inside the drain loop, the transfer
  started for the selected entry keeps the count within \<open>countMax\<close>.
\<close>

theorem C4_selection_and_cap:
  "getNextFileToDownload cfg s =
     (if downloadingCount s < countMax cfg then firstNotDownloading s else None)
   \<and> distinct (downloadQueue (run cfg evs init))
   \<and> downloadingCount (run cfg evs init) \<le> countMax cfg
   \<and> (getNextFileToDownload cfg s = Some f \<and> distinct (downloadQueue s)
        \<longrightarrow> downloadingCount (dispatch cfg f s) \<le> countMax cfg)"
proof -
  have "distinct (downloadQueue init)" "downloadingCount init \<le> countMax cfg"
    by (simp_all add: init_def downloadingCount_def)
  then show ?thesis using run_inv[of init cfg evs] getNext_eq dispatch_bound by blast
qed

theorem C4_selection_and_cap_witness:
  "getNextFileToDownload cfg_example (init\<lparr>downloadQueue := [0, 1]\<rparr>) = Some 0
   \<and> distinct (downloadQueue (init\<lparr>downloadQueue := [0, 1]\<rparr>))
   \<and> downloadingCount (dispatch cfg_example 0 (init\<lparr>downloadQueue := [0, 1]\<rparr>))
        \<le> countMax cfg_example"
proof -
  have g: "getNextFileToDownload cfg_example (init\<lparr>downloadQueue := [0, 1]\<rparr>) = Some 0"
    by (simp add: getNextFileToDownload_def init_def cfg_example_def blank_file_def)
  have d: "distinct (downloadQueue (init\<lparr>downloadQueue := [0, 1]\<rparr>))"
    by simp
  show ?thesis
    using C4_selection_and_cap[of cfg_example "init\<lparr>downloadQueue := [0, 1]\<rparr>" "[]" 0] g d
    by blast
qed

subsection \<open>Evaluating a run of the orchestrator\<close>

lemma drain_ends_cycle:
  "getNextFileToDownload cfg s = None \<Longrightarrow> downloadQueue s = []
     \<Longrightarrow> downloadNextInQueue cfg s = downloadCompleteCallback cfg s"
  by (subst downloadNextInQueue.simps) simp

lemma drain_waits:
  "getNextFileToDownload cfg s = None \<Longrightarrow> downloadQueue s \<noteq> []
     \<Longrightarrow> downloadNextInQueue cfg s = s"
  by (subst downloadNextInQueue.simps) simp

lemma drain_starts:
  "getNextFileToDownload cfg s = Some f
     \<Longrightarrow> downloadNextInQueue cfg s = downloadNextInQueue cfg (dispatch cfg f s)"
  by (subst downloadNextInQueue.simps) simp

lemmas evaluate = drain_ends_cycle drain_waits drain_starts
  cfg_example_def file_a_def file_b_def init_def syncRequest_def startSync_def newJSFtp_def
  Let_def downloadCompleteCallback_def ftpForDownloading_def doneWithFtpObj_def
  getNextFileToDownload_def dispatch_def releaseAfterError_def ftpDownloadError_def
  downloadSucceeded_def sortNewestFirst_def scanSucceeded_def sessionFailed_def
  new_FtpFile_def appendSlash_def upt_rec[of 0] upt_rec[of "Suc _"] blank_file_def
  substring_def

subsection \<open>The end of a cycle\<close>

lemma startSync_flag: "lastRunHadStuffToDownload (startSync cfg s) = lastRunHadStuffToDownload s"
  by (simp add: startSync_def newJSFtp_def Let_def split: prod.splits)

lemma complete_flag:
  "lastRunHadStuffToDownload (downloadCompleteCallback cfg s) = lastRunHadStuffToDownload s"
  by (simp add: downloadCompleteCallback_def startSync_flag Let_def)

lemma dispatch_flag: "lastRunHadStuffToDownload (dispatch cfg f s) = lastRunHadStuffToDownload s"
  by (simp add: dispatch_def ftpForDownloading_def newJSFtp_def Let_def split: prod.splits)

lemma dniq_flag:
  "lastRunHadStuffToDownload (downloadNextInQueue cfg s) = lastRunHadStuffToDownload s"
proof (induction cfg s rule: downloadNextInQueue.induct)
  case (1 cfg s)
  show ?case
  proof (cases "getNextFileToDownload cfg s")
    case None
    then show ?thesis by (subst downloadNextInQueue.simps) (simp add: complete_flag)
  next
    case (Some f)
    then show ?thesis using 1[OF Some]
      by (subst downloadNextInQueue.simps) (simp add: dispatch_flag)
  qed
qed

lemma error_flag:
  "lastRunHadStuffToDownload (ftpDownloadError cfg f c s) = lastRunHadStuffToDownload s"
  by (simp add: ftpDownloadError_def dniq_flag releaseAfterError_def doneWithFtpObj_def)

lemma success_flag:
  "lastRunHadStuffToDownload (downloadSucceeded cfg f c s) = lastRunHadStuffToDownload s"
  by (simp add: downloadSucceeded_def dniq_flag doneWithFtpObj_def newJSFtp_def Let_def)

lemma scan_flag:
  "lastRunHadStuffToDownload (scanSucceeded cfg c data s) = lastRunHadStuffToDownload s"
  by (simp add: scanSucceeded_def dniq_flag Let_def split: option.splits)

lemma listeners_flag:
  "lastRunHadStuffToDownload (runListeners cfg c q s) = lastRunHadStuffToDownload s"
  by (induction q arbitrary: s) (simp_all add: error_flag)

lemma step_flag: "lastRunHadStuffToDownload (step cfg e s) = lastRunHadStuffToDownload s"
  by (cases e)
     (simp_all add: syncRequest_def startSync_flag sessionFailed_def listeners_flag
        complete_flag scan_flag error_flag success_flag Let_def split: option.splits)

lemma run_flag: "lastRunHadStuffToDownload (run cfg evs s) = lastRunHadStuffToDownload s"
  by (induction evs arbitrary: s) (simp_all add: step_flag)

text \<open>
  What the two methods of the claim do, for every state: a request during a cycle only
  sets the flag; the end of a cycle branches on the two flags.
\<close>

lemma syncRequest_while_syncing:
  "downloading_cycle s \<Longrightarrow> syncRequest cfg s = s\<lparr>syncRequestedWhileDownloading := True\<rparr>"
  by (simp add: syncRequest_def)

lemma downloadCompleteCallback_branches:
  "downloadCompleteCallback cfg s =
     (if lastRunHadStuffToDownload s \<or> syncRequestedWhileDownloading s
      then startSync cfg (s\<lparr>downloading_cycle := False\<rparr>)
      else s\<lparr>downloading_cycle := False, pollingTimeoutId := nextTimer s,
              timers := timers s @ [(nextTimer s, pollingIntervalInSeconds cfg * 1000)],
              nextTimer := Suc (nextTimer s)\<rparr>)"
  by (simp add: downloadCompleteCallback_def Let_def)

text \<open>
  C7. The field \<open>lastRunHadStuffToDownload\<close> is read at the end of a cycle and assigned
  nowhere: it is false after every sequence of events. So a cycle that had work does not
  start a new sync at its end: after a request, a listing with one file and the successful
  download of that file (no request arrived meanwhile), the file is in the completed list,
  the queue is empty, the cycle is over, no listing is pending, and the polling timer is
  armed with the polling interval. The claim says that a new sync starts immediately there.
\<close>

theorem C7_cycle_with_work_arms_timer:
  "\<not> lastRunHadStuffToDownload (run cfg evs init)
   \<and> completedList (run cfg_example
         [SyncRequest, ScanDone 0 None [file_a], GetDone 1 0 None] init) = [0]
   \<and> downloadQueue (run cfg_example
         [SyncRequest, ScanDone 0 None [file_a], GetDone 1 0 None] init) = []
   \<and> \<not> downloading_cycle (run cfg_example
         [SyncRequest, ScanDone 0 None [file_a], GetDone 1 0 None] init)
   \<and> pendingScans (run cfg_example
         [SyncRequest, ScanDone 0 None [file_a], GetDone 1 0 None] init) = []
   \<and> pollingTimeoutId (run cfg_example
         [SyncRequest, ScanDone 0 None [file_a], GetDone 1 0 None] init) = 1
   \<and> timers (run cfg_example
         [SyncRequest, ScanDone 0 None [file_a], GetDone 1 0 None] init) = [(1, 60000)]"
proof -
  have "\<not> lastRunHadStuffToDownload (run cfg evs init)"
    by (simp add: run_flag init_def)
  then show ?thesis by (simp add: evaluate)
qed

subsection \<open>A failed transfer\<close>

lemma find_None_all: "find P xs = None \<Longrightarrow> x \<in> set xs \<Longrightarrow> \<not> P x"
  by (simp add: find_None_iff)

lemma dniq_saturates:
  "f \<in> set (downloadQueue s) \<Longrightarrow>
   downloading (store (downloadNextInQueue cfg s) f)
   \<or> countMax cfg \<le> downloadingCount (downloadNextInQueue cfg s)"
proof (induction cfg s rule: downloadNextInQueue.induct)
  case (1 cfg s)
  show ?case
  proof (cases "getNextFileToDownload cfg s")
    case None
    have "downloading (store s f) \<or> countMax cfg \<le> downloadingCount s"
    proof (cases "downloadingCount s < countMax cfg")
      case True
      then have "firstNotDownloading s = None" using None by (simp add: getNext_eq)
      then show ?thesis using "1.prems" find_None_all[of _ "downloadQueue s" f]
        by (auto simp: firstNotDownloading_def)
    next
      case False
      then show ?thesis by simp
    qed
    then show ?thesis using None
      by (subst (1 2) downloadNextInQueue.simps) (simp add: complete_keeps complete_count)
  next
    case (Some g)
    then show ?thesis using "1.IH"[OF Some] "1.prems"
      by (subst (1 2) downloadNextInQueue.simps) (simp add: dispatch_queue)
  qed
qed

lemma startSync_requests: "getRequests (startSync cfg s) = getRequests s"
  by (simp add: startSync_def newJSFtp_def Let_def split: prod.splits)

lemma complete_requests: "requestsFor f (downloadCompleteCallback cfg s) = requestsFor f s"
  by (simp add: requestsFor_def downloadCompleteCallback_def startSync_requests Let_def)

lemma dispatch_requests:
  "requestsFor f (dispatch cfg g s) = requestsFor f s + (if g = f then 1 else 0)"
  by (simp add: requestsFor_def dispatch_def ftpForDownloading_def newJSFtp_def Let_def
           split: prod.splits)

text \<open>
  One drain pass calls \<open>ftp.get\<close> for an entry at most once, and exactly when it sets the
  flag of the entry.
\<close>

lemma dniq_retry:
  "(\<not> downloading (store s f) \<longrightarrow>
      requestsFor f (downloadNextInQueue cfg s)
        = requestsFor f s + (if downloading (store (downloadNextInQueue cfg s) f) then 1 else 0))
   \<and> (downloading (store s f) \<longrightarrow>
      downloading (store (downloadNextInQueue cfg s) f)
      \<and> requestsFor f (downloadNextInQueue cfg s) = requestsFor f s)"
proof (induction cfg s rule: downloadNextInQueue.induct)
  case (1 cfg s)
  show ?case
  proof (cases "getNextFileToDownload cfg s")
    case None
    then have "downloadNextInQueue cfg s = s
               \<or> downloadNextInQueue cfg s = downloadCompleteCallback cfg s"
      by (subst (1 2) downloadNextInQueue.simps) simp
    then show ?thesis by (auto simp: complete_keeps complete_requests)
  next
    case (Some g)
    have e: "downloadNextInQueue cfg s = downloadNextInQueue cfg (dispatch cfg g s)"
      using Some by (subst downloadNextInQueue.simps) simp
    have nd: "\<not> downloading (store s g)" using getNext_Some[OF Some] by simp
    show ?thesis
    proof (cases "g = f")
      case True
      then show ?thesis using "1.IH"[OF Some] nd unfolding e
        by (simp add: dispatch_store dispatch_requests)
    next
      case False
      then show ?thesis using "1.IH"[OF Some] unfolding e
        by (simp add: dispatch_store dispatch_requests)
    qed
  qed
qed

lemma release_requests: "requestsFor f (releaseAfterError g c s) = requestsFor f s"
  by (simp add: requestsFor_def releaseAfterError_def doneWithFtpObj_def)

text \<open>
  The three ends of a failed transfer all run the closure \<open>ftpDownloadError\<close> of the
  transfer: the callback of \<open>ftp.get\<close> with an error, and the events \<open>error\<close> and
  \<open>timeout\<close> of its session (here a download session with that one listener).
\<close>

lemma failure_runs_ftpDownloadError:
  "(c, f) \<in> set (pendingGets s) \<Longrightarrow>
     step cfg (GetDone c f (Some e)) s
       = ftpDownloadError cfg f c (s\<lparr>pendingGets := remove1 (c, f) (pendingGets s)\<rparr>)"
  "listeners s c = [f] \<Longrightarrow> c \<notin> set (scanListeners s) \<Longrightarrow>
     step cfg (SessionError c) s = ftpDownloadError cfg f c s
     \<and> step cfg (SessionTimeout c) s = ftpDownloadError cfg f c s"
  by (simp_all add: sessionFailed_def)

subsection \<open>The pool\<close>

text \<open>
  C9. The closure \<open>ftpDownloadError\<close> stays registered on its session after the transfer
  has ended, and nothing guards it against a second run. With \<open>countMax = 2\<close>: a cycle
  downloads one file on session 1 (one call of \<open>ftp.get\<close>) and returns the session to the
  pool; the idle session then emits \<open>error\<close>, the closure runs and returns the session
  again: the pool holds session 1 twice. In the next cycle, with two files, both transfers
  take session 1 from the pool and are in flight on it together. The claim says that a
  session is returned once per borrow and owned by one transfer at a time.
\<close>

theorem C9_session_returned_twice:
  "getRequests (run cfg_example
       [SyncRequest, ScanDone 0 None [file_a], GetDone 1 0 None, SessionError 1] init)
     = [(0, ''/sync/a.avi'', ''/local/a.avi'')]
   \<and> ftpConnectionPool (run cfg_example
       [SyncRequest, ScanDone 0 None [file_a], GetDone 1 0 None, SessionError 1] init)
     = [1, 1]
   \<and> pendingGets (run cfg_example
       [SyncRequest, ScanDone 0 None [file_a], GetDone 1 0 None, SessionError 1,
        SyncRequest, ScanDone 2 None [file_a, file_b]] init)
     = [(1, 1), (1, 2)]"
  by (simp add: evaluate)

subsection \<open>The status snapshot\<close>

lemma pushDownloads_eq: "pushDownloads st q ds = ds @ map (\<lambda>f. json (st f)) q"
  by (induction q arbitrary: ds) simp_all

text \<open>
  C10. For every state, \<open>status\<close> leaves the state as it is; its \<open>stats\<close> are the record
  of the four literals of the source (download rate 56.3, maximal download rate 5000001,
  1 connection, at most 2 connections), whatever the rates, the pool and the queue are;
  its \<open>downloads\<close> are the snapshots of the entries of the queue, one per entry, in queue
  order.
\<close>

theorem C10_status_constant_stats:
  "snd (status s) = s
   \<and> stats_of (fst (status s))
        = \<lparr> download_rate = 56.3, max_download_rate = 5000001,
            num_connections = 1, max_num_connections = 2 \<rparr>
   \<and> downloads (fst (status s)) = map (\<lambda>f. json (store s f)) (downloadQueue s)
   \<and> length (downloads (fst (status s))) = length (downloadQueue s)"
  by (simp add: status_def pushDownloads_eq)

subsection \<open>The transfer: finalize runs once\<close>

lemma releaseSession_keeps:
  "fsys (releaseSession t) = fsys t"
  "temp_path (releaseSession t) = temp_path t"
  "local_path (releaseSession t) = local_path t"
  "callbacks (releaseSession t) = callbacks t"
  "signals (releaseSession t) = signals t"
  "finalized (releaseSession t) = finalized t"
  "called (releaseSession t) = called t"
  "crashed (releaseSession t) = crashed t"
  "entry (releaseSession t) = entry t"
  "env (releaseSession t) = env t"
  "samples (releaseSession t) = samples t"
  "fd (releaseSession t) = fd t"
  "pool (releaseSession t) = pool t @ [session t]"
  by (simp_all add: releaseSession_def Let_def split: option.splits)

lemma closeFd_keeps:
  "files (fsys (snd (closeFd err t))) = files (fsys t)"
  "temp_path (snd (closeFd err t)) = temp_path t"
  "local_path (snd (closeFd err t)) = local_path t"
  "callbacks (snd (closeFd err t)) = callbacks t"
  "signals (snd (closeFd err t)) = signals t"
  "finalized (snd (closeFd err t)) = finalized t"
  "called (snd (closeFd err t)) = called t"
  "crashed (snd (closeFd err t)) = crashed t"
  "entry (snd (closeFd err t)) = entry t"
  "env (snd (closeFd err t)) = env t"
  "samples (snd (closeFd err t)) = samples t"
  "pool (snd (closeFd err t)) = pool t"
  by (simp_all add: closeFd_def split: option.splits)

lemma closeFd_err:
  "fst (closeFd err t) = (if closeFails t then Some CloseFailure else err)"
  by (simp add: closeFd_def closeFails_def split: option.splits)

lemma closeFails_release: "closeFails (releaseSession t) = closeFails t"
  by (simp add: closeFails_def releaseSession_keeps split: option.splits)

lemma checkAndPublish_counters:
  "signals (checkAndPublish err t) = signals t"
  "finalized (checkAndPublish err t) = finalized t"
  "called (checkAndPublish err t) = called t"
  by (simp_all add: checkAndPublish_def Let_def split: prod.splits option.splits)

lemma checkAndPublish_callback:
  "err \<noteq> None \<or> files (fsys t) (temp_path t) \<noteq> None \<Longrightarrow>
     length (callbacks (checkAndPublish err t)) = Suc (length (callbacks t))
     \<and> crashed (checkAndPublish err t) = crashed t"
  by (auto simp: checkAndPublish_def Let_def split: prod.splits option.splits)

lemma downloadDone_eq:
  "downloadDone err t = checkAndPublish (fst (closeFd err (releaseSession t))) (snd (closeFd err (releaseSession t)))"
  by (simp add: downloadDone_def split: prod.splits)

lemma downloadDone_counters:
  "signals (downloadDone err t) = signals t"
  "finalized (downloadDone err t) = finalized t"
  "called (downloadDone err t) = called t"
  by (simp_all add: downloadDone_eq checkAndPublish_counters closeFd_keeps releaseSession_keeps)

lemma downloadDone_callback:
  assumes "err \<noteq> None \<or> files (fsys t) (temp_path t) \<noteq> None"
  shows "length (callbacks (downloadDone err t)) = Suc (length (callbacks t))
         \<and> crashed (downloadDone err t) = crashed t"
proof -
  let ?c = "closeFd err (releaseSession t)"
  have "fst ?c \<noteq> None \<or> files (fsys (snd ?c)) (temp_path (snd ?c)) \<noteq> None"
    using assms by (auto simp: closeFd_err closeFd_keeps releaseSession_keeps)
  from checkAndPublish_callback[OF this] show ?thesis
    by (simp add: downloadDone_eq closeFd_keeps releaseSession_keeps)
qed

lemma once_preserved:
  assumes "once_inv t" "\<not> crashed t"
  shows "once_inv (downloadDone_once err t)"
proof (cases "called t")
  case True
  then show ?thesis using assms by (auto simp: downloadDone_once_def once_inv_def Let_def)
next
  case False
  let ?u = "t\<lparr>signals := Suc (signals t), called := True, finalized := Suc (finalized t)\<rparr>"
  have z: "signals t = 0" "callbacks t = []" "finalized t = 0"
    and f: "files (fsys t) (temp_path t) \<noteq> None"
    using False assms by (auto simp: once_inv_def)
  have e: "downloadDone_once err t = downloadDone err ?u"
    using False by (simp add: downloadDone_once_def Let_def)
  have "length (callbacks (downloadDone err ?u)) = Suc (length (callbacks ?u))"
    using downloadDone_callback[of err ?u] f by simp
  then show ?thesis unfolding e using z
    by (simp add: once_inv_def downloadDone_counters)
qed

lemma start_inv:
  "once_inv (start san file0 dir pool0 n fs0 flt)"
proof (cases "open_throws flt")
  case True
  have "length (callbacks (downloadDone (Some OpenFailure) u)) = Suc (length (callbacks u))" for u
    using downloadDone_callback[of "Some OpenFailure" u] by simp
  then show ?thesis using True
    by (simp add: start_def startThrew_def Let_def downloadDone_once_def once_inv_def
          downloadDone_counters)
next
  case False
  then show ?thesis by (simp add: start_def Let_def once_inv_def)
qed

lemma handle_inv:
  assumes "once_inv t"
  shows "once_inv (handle e t)"
proof (cases "crashed t")
  case True
  then show ?thesis using assms by (cases e) simp_all
next
  case nc: False
  show ?thesis
  proof (cases e)
    case (FtpError x)
    then show ?thesis using nc once_preserved[OF assms nc] by simp
  next
    case FtpTimeout
    then show ?thesis using nc once_preserved[OF assms nc] by simp
  next
    case (GetSocketDone r)
    have a: "once_inv (t\<lparr>socket := None\<rparr>)"
            "once_inv (t\<lparr>socket := Some \<lparr>destroyed = False, bytesRead = 0\<rparr>\<rparr>)"
      using assms by (simp_all add: once_inv_def)
    have b: "\<not> crashed (t\<lparr>socket := None\<rparr>)" using nc by simp
    show ?thesis using GetSocketDone nc assms a once_preserved[OF a(1) b]
      by (simp split: option.splits)
  next
    case (SocketData k)
    have "once_inv (socketData k sk t)" for sk
      using assms nc by (auto simp: once_inv_def socketData_def Let_def split: option.splits)
    then show ?thesis using SocketData assms by (simp split: option.splits)
  next
    case (SocketClose h)
    have a: "once_inv (t\<lparr>socket := Some (sk\<lparr>destroyed := True\<rparr>)\<rparr>)" for sk
      using assms by (simp add: once_inv_def)
    have b: "\<not> crashed (t\<lparr>socket := Some (sk\<lparr>destroyed := True\<rparr>)\<rparr>)" for sk
      using nc by simp
    show ?thesis using SocketClose nc assms once_preserved[OF a b]
      by (simp split: option.splits)
  qed
qed

lemma attempt_inv: "once_inv t \<Longrightarrow> once_inv (attempt evs t)"
  by (induction evs arbitrary: t) (simp_all add: handle_inv)

text \<open>After an exception that nothing catches, no event is handled.\<close>

lemma handle_crashed: "crashed t \<Longrightarrow> handle e t = t"
  by (cases e) simp_all

lemma attempt_crashed: "crashed t \<Longrightarrow> attempt evs t = t"
  by (induction evs) (simp_all add: handle_crashed)

lemmas transfer_eval = start_def startThrew_def Let_def downloadDone_once_def downloadDone_def
  releaseSession_def closeFd_def checkAndPublish_def socketData_def renameSync_def
  entry_example_def fs_empty_def no_faults_def appendSlash_def

text \<open>
  C1. The finalize is guarded: for every call of \<open>start\<close> (any entry, directory, pool, file
  system and faults) and every sequence of events after it (session errors, timeouts, the
  callback of \<open>getGetSocket\<close> with or without an error, data, closes of the socket), the
  body of \<open>downloadDone\<close> has run and the completion callback has been called exactly once
  when at least one signal has called the wrapped \<open>downloadDone\<close>, however many did, and
  not at all when none has. An \<open>openSync\<close> that throws in a directory that could be made is
  such a signal by itself; a close of the socket followed by a timeout are two signals, a
  session error, a timeout and a failed \<open>getGetSocket\<close> are three. (The file system is
  changed by the transfer only: nothing removes the temp file under it.)

  But not every attempt reports its end once, as the claim says: when the destination
  directory cannot be made, \<open>mkdirp.sync\<close> throws out of \<open>start\<close> before any listener and
  before \<open>downloadDone\<close> exist. Whatever events follow, the completion callback is never
  called for that attempt, the flag \<open>downloading\<close> of the entry stays set, no session was
  taken from the pool and no stream was requested.
\<close>

theorem C1_finalize_once_unless_mkdirp_throws:
  "length (callbacks (attempt evs (start san file0 dir pool0 n fs0 flt)))
     = min 1 (signals (attempt evs (start san file0 dir pool0 n fs0 flt)))
   \<and> finalized (attempt evs (start san file0 dir pool0 n fs0 flt))
     = min 1 (signals (attempt evs (start san file0 dir pool0 n fs0 flt)))
   \<and> signals (start san file0 dir pool0 n fs0
        (flt\<lparr>open_throws := True, mkdirp_throws := False\<rparr>)) = 1
   \<and> signals (attempt [GetSocketDone None, SocketClose False, FtpTimeout]
        (start (\<lambda>x. x) entry_example ''/local/tv/showA/'' [] 0 fs_empty no_faults)) = 2
   \<and> signals (attempt [FtpError ''ECONNRESET'', FtpTimeout, GetSocketDone (Some ''no socket'')]
        (start (\<lambda>x. x) entry_example ''/local/tv/showA/'' [] 0 fs_empty no_faults)) = 3
   \<and> callbacks (attempt evs (start san file0 dir pool0 n fs0
        (flt\<lparr>open_throws := True, mkdirp_throws := True\<rparr>))) = []
   \<and> finalized (attempt evs (start san file0 dir pool0 n fs0
        (flt\<lparr>open_throws := True, mkdirp_throws := True\<rparr>))) = 0
   \<and> downloading (entry (attempt evs (start san file0 dir pool0 n fs0
        (flt\<lparr>open_throws := True, mkdirp_throws := True\<rparr>))))
   \<and> pool (attempt evs (start san file0 dir pool0 n fs0
        (flt\<lparr>open_throws := True, mkdirp_throws := True\<rparr>))) = pool0
   \<and> streamRequests (attempt evs (start san file0 dir pool0 n fs0
        (flt\<lparr>open_throws := True, mkdirp_throws := True\<rparr>))) = []"
proof -
  let ?thrown = "start san file0 dir pool0 n fs0 (flt\<lparr>open_throws := True, mkdirp_throws := True\<rparr>)"
  have "once_inv (attempt evs (start san file0 dir pool0 n fs0 flt))"
    by (rule attempt_inv[OF start_inv])
  then have a: "length (callbacks (attempt evs (start san file0 dir pool0 n fs0 flt)))
     = min 1 (signals (attempt evs (start san file0 dir pool0 n fs0 flt)))
   \<and> finalized (attempt evs (start san file0 dir pool0 n fs0 flt))
     = min 1 (signals (attempt evs (start san file0 dir pool0 n fs0 flt)))"
    by (simp add: once_inv_def)
  have b: "signals (start san file0 dir pool0 n fs0
        (flt\<lparr>open_throws := True, mkdirp_throws := False\<rparr>)) = 1"
    by (simp add: start_def Let_def downloadDone_once_def downloadDone_counters)
  have c: "signals (attempt [GetSocketDone None, SocketClose False, FtpTimeout]
        (start (\<lambda>x. x) entry_example ''/local/tv/showA/'' [] 0 fs_empty no_faults)) = 2"
    by (simp add: transfer_eval)
  have d: "signals (attempt [FtpError ''ECONNRESET'', FtpTimeout, GetSocketDone (Some ''no socket'')]
        (start (\<lambda>x. x) entry_example ''/local/tv/showA/'' [] 0 fs_empty no_faults)) = 3"
    by (simp add: transfer_eval)
  have t: "crashed ?thrown" "callbacks ?thrown = []" "finalized ?thrown = 0"
    "downloading (entry ?thrown)" "pool ?thrown = pool0" "streamRequests ?thrown = []"
    by (simp_all add: start_def startThrew_def Let_def)
  have e: "attempt evs ?thrown = ?thrown"
    by (rule attempt_crashed[OF t(1)])
  show ?thesis unfolding e using a b c d t by blast
qed

subsection \<open>The transfer: an incomplete temp file is not renamed\<close>

lemma checkAndPublish_incomplete:
  assumes "files (fsys t) (temp_path t) = Some k" "k < fsize (entry t)"
  shows "checkAndPublish err t
     = t\<lparr>entry := (entry t)\<lparr>downloading := False\<rparr>,
          callbacks := callbacks t
            @ [(if err = None then Some NotCompletelyDownloaded else err,
                (entry t)\<lparr>downloading := False\<rparr>)]\<rparr>"
  using assms by (auto simp: checkAndPublish_def Let_def)

lemma downloadDone_incomplete:
  assumes "files (fsys t) (temp_path t) = Some k" "k < fsize (entry t)"
  shows "files (fsys (downloadDone None t)) = files (fsys t)
       \<and> callbacks (downloadDone None t)
           = callbacks t @ [(Some (if closeFails t then CloseFailure else NotCompletelyDownloaded),
                            (entry t)\<lparr>downloading := False\<rparr>)]
       \<and> \<not> downloading (entry (downloadDone None t))
       \<and> \<not> crashed (downloadDone None t) = (\<not> crashed t)"
proof -
  let ?c = "closeFd None (releaseSession t)"
  have a: "files (fsys (snd ?c)) (temp_path (snd ?c)) = Some k" "k < fsize (entry (snd ?c))"
    using assms by (simp_all add: closeFd_keeps releaseSession_keeps)
  show ?thesis
    unfolding downloadDone_eq checkAndPublish_incomplete[OF a]
    by (simp add: closeFd_keeps closeFd_err releaseSession_keeps closeFails_release)
qed

text \<open>
  C2. For every transfer on which no signal has come yet, whose socket closes without an
  error (\<open>hadError\<close> false: \<open>downloadDone\<close> starts with no error) while the temp file is
  smaller than the size of the entry: no file of the file system changes (no rename; the
  temp file is in place with the size it had), the completion callback receives an error,
  which is \<open>Not completely downloaded\<close> unless closing the descriptor threw, the flag
  \<open>downloading\<close> of the entry is reset and nothing is thrown.
\<close>

theorem C2_incomplete_not_renamed:
  assumes "\<not> crashed t" "\<not> called t" "socket t = Some sk"
      and "files (fsys t) (temp_path t) = Some k" "k < fsize (entry t)"
  shows "files (fsys (handle (SocketClose False) t)) = files (fsys t)
       \<and> files (fsys (handle (SocketClose False) t)) (temp_path t) = Some k
       \<and> callbacks (handle (SocketClose False) t)
           = callbacks t @ [(Some (if closeFails t then CloseFailure else NotCompletelyDownloaded),
                            (entry t)\<lparr>downloading := False\<rparr>)]
       \<and> \<not> downloading (entry (handle (SocketClose False) t))
       \<and> \<not> crashed (handle (SocketClose False) t)"
proof -
  let ?u = "t\<lparr>socket := Some (sk\<lparr>destroyed := True\<rparr>), signals := Suc (signals t),
              called := True, finalized := Suc (finalized t)\<rparr>"
  have e: "handle (SocketClose False) t = downloadDone None ?u"
    using assms(1-3) by (simp add: downloadDone_once_def Let_def)
  have a: "files (fsys ?u) (temp_path ?u) = Some k" "k < fsize (entry ?u)"
    using assms(4,5) by simp_all
  have c: "closeFails ?u = closeFails t" by (simp add: closeFails_def split: option.splits)
  show ?thesis unfolding e using downloadDone_incomplete[OF a] assms(1,4) c by simp
qed

theorem C2_incomplete_not_renamed_witness:
  "\<not> crashed (attempt [GetSocketDone None, SocketData 40]
        (start (\<lambda>x. x) entry_example ''/local/tv/showA/'' [] 0 fs_empty no_faults))
   \<and> \<not> called (attempt [GetSocketDone None, SocketData 40]
        (start (\<lambda>x. x) entry_example ''/local/tv/showA/'' [] 0 fs_empty no_faults))
   \<and> socket (attempt [GetSocketDone None, SocketData 40]
        (start (\<lambda>x. x) entry_example ''/local/tv/showA/'' [] 0 fs_empty no_faults))
      = Some \<lparr>destroyed = False, bytesRead = 40\<rparr>
   \<and> files (fsys (attempt [GetSocketDone None, SocketData 40]
        (start (\<lambda>x. x) entry_example ''/local/tv/showA/'' [] 0 fs_empty no_faults)))
        ''/local/tv/showA/ep1.avi.tmp'' = Some 40
   \<and> (40::nat) < fsize entry_example
   \<and> files (fsys (attempt [GetSocketDone None, SocketData 40, SocketClose False]
        (start (\<lambda>x. x) entry_example ''/local/tv/showA/'' [] 0 fs_empty no_faults)))
        ''/local/tv/showA/ep1.avi.tmp'' = Some 40
   \<and> files (fsys (attempt [GetSocketDone None, SocketData 40, SocketClose False]
        (start (\<lambda>x. x) entry_example ''/local/tv/showA/'' [] 0 fs_empty no_faults)))
        ''/local/tv/showA/ep1.avi'' = None
   \<and> map fst (callbacks (attempt [GetSocketDone None, SocketData 40, SocketClose False]
        (start (\<lambda>x. x) entry_example ''/local/tv/showA/'' [] 0 fs_empty no_faults)))
      = [Some NotCompletelyDownloaded]"
proof -
  let ?t = "attempt [GetSocketDone None, SocketData 40]
        (start (\<lambda>x. x) entry_example ''/local/tv/showA/'' [] 0 fs_empty no_faults)"
  have h: "\<not> crashed ?t" "\<not> called ?t" "socket ?t = Some \<lparr>destroyed = False, bytesRead = 40\<rparr>"
    "files (fsys ?t) (temp_path ?t) = Some 40" "40 < fsize (entry ?t)"
    "temp_path ?t = ''/local/tv/showA/ep1.avi.tmp''" "fsize (entry ?t) = fsize entry_example"
    "files (fsys ?t) ''/local/tv/showA/ep1.avi'' = None"
    "\<not> closeFails ?t" "callbacks ?t = []"
    by (simp_all add: transfer_eval closeFails_def)
  have s: "attempt [GetSocketDone None, SocketData 40, SocketClose False]
        (start (\<lambda>x. x) entry_example ''/local/tv/showA/'' [] 0 fs_empty no_faults)
       = handle (SocketClose False) ?t"
    by simp
  show ?thesis
    unfolding s using C2_incomplete_not_renamed[OF h(1-5)] h by simp
qed

subsection \<open>The transfer: resuming at the size of the temp file\<close>

text \<open>
  C3. For every call of \<open>start\<close> in which opening the temp file does not throw, with \<open>K\<close>
  the size of the temp file before the call (0 when there is none: the file is created):
  the descriptor is open on the temp file, which has size \<open>K\<close>; \<open>skipBytes\<close> and the
  \<open>transferred\<close> of the entry are \<open>K\<close>; the one request to \<open>getGetSocket\<close> is for the
  remote path of the entry at offset \<open>K\<close>; no signal has come. When \<open>K\<close> is the size of
  the entry or more (so for \<open>K = 0\<close> and an entry of size 0), and closing and renaming do
  not throw, the socket that closes without an error and without any data publishes the
  file: the callback gets no error, no chunk was read, the final path has \<open>K\<close> bytes and
  the temp path is gone.
\<close>

theorem C3_resume_offset:
  assumes "\<not> open_throws flt"
  shows "let tempPath = appendSlash dir @ san (name file0) @ ''.tmp'';
             K = (case files fs0 tempPath of None \<Rightarrow> 0 | Some k \<Rightarrow> k);
             t = start san file0 dir pool0 n fs0 flt
         in temp_path t = tempPath
          \<and> local_path t = appendSlash dir @ san (name file0)
          \<and> fd t = Some (nextFd fs0)
          \<and> descriptors (fsys t) (nextFd fs0) = Some tempPath
          \<and> files (fsys t) tempPath = Some K
          \<and> skipBytes t = Some K
          \<and> transferred (entry t) = K
          \<and> streamRequests t = [(fullPath file0, K)]
          \<and> signals t = 0
          \<and> (fsize file0 \<le> K \<and> \<not> close_throws flt \<and> \<not> rename_throws flt \<longrightarrow>
               map fst (callbacks (attempt [GetSocketDone None, SocketClose False] t)) = [None]
               \<and> samples (attempt [GetSocketDone None, SocketClose False] t) = []
               \<and> files (fsys (attempt [GetSocketDone None, SocketClose False] t))
                    (local_path t) = Some K
               \<and> files (fsys (attempt [GetSocketDone None, SocketClose False] t))
                    tempPath = None)"
  using assms
  by (auto simp: start_def Let_def downloadDone_once_def downloadDone_def releaseSession_def
        closeFd_def checkAndPublish_def renameSync_def split: option.splits)


theorem C3_resume_offset_witness:
  "\<not> open_throws no_faults
   \<and> fsize entry_example \<le> 100 \<and> \<not> close_throws no_faults \<and> \<not> rename_throws no_faults
   \<and> skipBytes (start (\<lambda>x. x) entry_example ''/local/tv/showA/'' [] 0 fs_complete no_faults)
        = Some 100
   \<and> streamRequests (start (\<lambda>x. x) entry_example ''/local/tv/showA/'' [] 0 fs_complete no_faults)
        = [(''/sync/tv/showA/ep1.avi'', 100)]
   \<and> map fst (callbacks (attempt [GetSocketDone None, SocketClose False]
        (start (\<lambda>x. x) entry_example ''/local/tv/showA/'' [] 0 fs_complete no_faults)))
        = [None]
   \<and> files (fsys (attempt [GetSocketDone None, SocketClose False]
        (start (\<lambda>x. x) entry_example ''/local/tv/showA/'' [] 0 fs_complete no_faults)))
        ''/local/tv/showA/ep1.avi'' = Some 100
   \<and> files (fsys (attempt [GetSocketDone None, SocketClose False]
        (start (\<lambda>x. x) entry_example ''/local/tv/showA/'' [] 0 fs_complete no_faults)))
        ''/local/tv/showA/ep1.avi.tmp'' = None"
proof -
  have h: "\<not> open_throws no_faults" by (simp add: no_faults_def)
  show ?thesis
    using C3_resume_offset[OF h, of "''/local/tv/showA/''" "\<lambda>x. x" entry_example fs_complete "[]" 0]
    by (simp add: transfer_eval fs_complete_def)
qed

text \<open>
  A resumed transfer: 40 bytes are there, the stream is asked for at offset 40, a chunk of
  60 bytes arrives, the socket closes; the final file has 100 bytes.
\<close>

lemma resume_example:
  "streamRequests (start (\<lambda>x. x) entry_example ''/local/tv/showA/'' [] 0 fs_partial no_faults)
     = [(''/sync/tv/showA/ep1.avi'', 40)]
   \<and> files (fsys (attempt [GetSocketDone None, SocketData 60, SocketClose False]
        (start (\<lambda>x. x) entry_example ''/local/tv/showA/'' [] 0 fs_partial no_faults)))
        ''/local/tv/showA/ep1.avi'' = Some 100
   \<and> transferred (entry (attempt [GetSocketDone None, SocketData 60, SocketClose False]
        (start (\<lambda>x. x) entry_example ''/local/tv/showA/'' [] 0 fs_partial no_faults))) = 100
   \<and> map fst (callbacks (attempt [GetSocketDone None, SocketData 60, SocketClose False]
        (start (\<lambda>x. x) entry_example ''/local/tv/showA/'' [] 0 fs_partial no_faults))) = [None]"
  by (simp add: transfer_eval fs_partial_def)

subsection \<open>A failed transfer stays in the queue\<close>

lemma checkAndPublish_failure:
  "checkAndPublish (Some x) t
     = t\<lparr>entry := (entry t)\<lparr>downloading := False\<rparr>,
          callbacks := callbacks t @ [(Some x, (entry t)\<lparr>downloading := False\<rparr>)]\<rparr>"
  by (simp add: checkAndPublish_def Let_def)

lemma downloadDone_failure:
  "callbacks (downloadDone (Some e) t)
     = callbacks t @ [(Some (if closeFails t then CloseFailure else e),
                      (entry t)\<lparr>downloading := False\<rparr>)]
   \<and> \<not> downloading (entry (downloadDone (Some e) t))"
proof -
  let ?c = "closeFd (Some e) (releaseSession t)"
  have f: "fst ?c = Some (if closeFails t then CloseFailure else e)"
    by (simp add: closeFd_err closeFails_release)
  show ?thesis
    unfolding downloadDone_eq f checkAndPublish_failure
    by (simp add: closeFd_keeps releaseSession_keeps)
qed

text \<open>
  The first signal with an error on a transfer of \<open>FtpDownloader\<close>: the flag of the entry
  is reset and the callback gets the error and the entry.
\<close>

lemma once_failure:
  assumes "\<not> called t"
  shows "callbacks (downloadDone_once (Some e) t)
           = callbacks t @ [(Some (if closeFails t then CloseFailure else e),
                            (entry t)\<lparr>downloading := False\<rparr>)]
         \<and> \<not> downloading (entry (downloadDone_once (Some e) t))"
proof -
  let ?u = "t\<lparr>signals := Suc (signals t), called := True, finalized := Suc (finalized t)\<rparr>"
  have e: "downloadDone_once (Some e) t = downloadDone (Some e) ?u"
    using assms by (simp add: downloadDone_once_def Let_def)
  have c: "closeFails ?u = closeFails t" by (simp add: closeFails_def split: option.splits)
  show ?thesis unfolding e using downloadDone_failure[of e ?u] c by simp
qed

text \<open>
  Every closure that a failing session runs leaves the queue as it is and never takes back
  a request of \<open>ftp.get\<close>.
\<close>

lemma error_queue: "downloadQueue (ftpDownloadError cfg g c s) = downloadQueue s"
  by (simp add: ftpDownloadError_def dniq_queue release_keeps)

lemma error_requests_mono: "requestsFor f s \<le> requestsFor f (ftpDownloadError cfg g c s)"
  using dniq_retry[of "releaseAfterError g c s" f cfg]
  by (cases "downloading (store (releaseAfterError g c s) f)")
     (simp_all add: ftpDownloadError_def release_requests)

lemma listeners_queue: "downloadQueue (runListeners cfg c q s) = downloadQueue s"
  by (induction q arbitrary: s) (simp_all add: error_queue)

lemma listeners_requests_mono: "requestsFor f s \<le> requestsFor f (runListeners cfg c q s)"
proof (induction q arbitrary: s)
  case Nil
  then show ?case by simp
next
  case (Cons g q)
  show ?case
    using Cons[of "ftpDownloadError cfg g c s"] error_requests_mono[of f s cfg g c] by simp
qed

text \<open>
  An entry whose flag is not set, or whose closure is among those that run, has its flag
  set afterwards only if \<open>ftp.get\<close> was called for it again.
\<close>

lemma error_retry:
  assumes "g = f \<or> \<not> downloading (store s f)"
  shows "requestsFor f (ftpDownloadError cfg g c s)
           = requestsFor f s + (if downloading (store (ftpDownloadError cfg g c s) f) then 1 else 0)"
proof -
  have "\<not> downloading (store (releaseAfterError g c s) f)"
    using assms by (auto simp: release_keeps)
  then show ?thesis
    using dniq_retry[of "releaseAfterError g c s" f cfg]
    by (simp add: ftpDownloadError_def release_requests)
qed

lemma listeners_retry:
  "f \<in> set q \<or> \<not> downloading (store s f) \<Longrightarrow>
   downloading (store (runListeners cfg c q s) f) \<Longrightarrow>
   requestsFor f s < requestsFor f (runListeners cfg c q s)"
proof (induction q arbitrary: s)
  case Nil
  then show ?case by simp
next
  case (Cons g q)
  let ?s1 = "ftpDownloadError cfg g c s"
  have fin: "downloading (store (runListeners cfg c q ?s1) f)" using Cons.prems(2) by simp
  show ?case
  proof (cases "g = f \<or> \<not> downloading (store s f)")
    case True
    note r = error_retry[OF True, of cfg c]
    show ?thesis
    proof (cases "downloading (store ?s1 f)")
      case True
      then have "requestsFor f s < requestsFor f ?s1" using r by simp
      then show ?thesis using listeners_requests_mono[of f ?s1 cfg c q] by simp
    next
      case False
      then have "requestsFor f ?s1 < requestsFor f (runListeners cfg c q ?s1)"
        using Cons.IH[of ?s1] fin by simp
      then show ?thesis using error_requests_mono[of f s cfg g c] by simp
    qed
  next
    case False
    then have "f \<in> set q" using Cons.prems(1) by auto
    then have "requestsFor f ?s1 < requestsFor f (runListeners cfg c q ?s1)"
      using Cons.IH[of ?s1] fin by simp
    then show ?thesis using error_requests_mono[of f s cfg g c] by simp
  qed
qed

lemma listeners_saturate:
  "q \<noteq> [] \<Longrightarrow> f \<in> set (downloadQueue s) \<Longrightarrow>
   downloading (store (runListeners cfg c q s) f)
   \<or> countMax cfg \<le> downloadingCount (runListeners cfg c q s)"
proof (induction q arbitrary: s)
  case Nil
  then show ?case by simp
next
  case (Cons g q)
  let ?s1 = "ftpDownloadError cfg g c s"
  have m: "f \<in> set (downloadQueue ?s1)" using Cons.prems(2) by (simp add: error_queue)
  show ?case
  proof (cases "q = []")
    case True
    have "f \<in> set (downloadQueue (releaseAfterError g c s))"
      using Cons.prems(2) by (simp add: release_keeps)
    from dniq_saturates[OF this, of cfg] show ?thesis
      using True by (simp add: ftpDownloadError_def)
  next
    case False
    then show ?thesis using Cons.IH[OF False m] by simp
  qed
qed

text \<open>
  The events \<open>error\<close> and \<open>timeout\<close> of a session on which the closure of the entry is
  registered (and possibly others, and \<open>ftpScanError\<close>).
\<close>

lemma sessionFailed_retry:
  assumes "f \<in> set (downloadQueue s)" "f \<in> set (listeners s c)"
  shows "downloadQueue (sessionFailed cfg c s) = downloadQueue s
       \<and> (if downloading (store (sessionFailed cfg c s) f)
          then requestsFor f s < requestsFor f (sessionFailed cfg c s)
          else countMax cfg \<le> downloadingCount (sessionFailed cfg c s))"
proof -
  let ?s0 = "if c \<in> set (scanListeners s) then downloadCompleteCallback cfg s else s"
  have q0: "downloadQueue ?s0 = downloadQueue s" and r0: "requestsFor f ?s0 = requestsFor f s"
    by (simp_all add: complete_keeps complete_requests)
  have e: "sessionFailed cfg c s = runListeners cfg c (listeners s c) ?s0"
    by (simp add: sessionFailed_def)
  have ne: "listeners s c \<noteq> []" using assms(2) by auto
  have m: "f \<in> set (downloadQueue ?s0)" using assms(1) q0 by simp
  have sat: "downloading (store (runListeners cfg c (listeners s c) ?s0) f)
             \<or> countMax cfg \<le> downloadingCount (runListeners cfg c (listeners s c) ?s0)"
    by (rule listeners_saturate[OF ne m])
  have ret: "downloading (store (runListeners cfg c (listeners s c) ?s0) f) \<Longrightarrow>
             requestsFor f s < requestsFor f (runListeners cfg c (listeners s c) ?s0)"
    using listeners_retry[of f "listeners s c" ?s0 cfg c] assms(2) r0 by simp
  show ?thesis unfolding e using listeners_queue[of cfg c "listeners s c" ?s0] q0 sat ret
    by auto
qed

text \<open>The callback of \<open>ftp.get\<close> with an error, for a pending request.\<close>

lemma getFailed_retry:
  assumes "f \<in> set (downloadQueue s)" "(c, f) \<in> set (pendingGets s)"
  shows "downloadQueue (step cfg (GetDone c f (Some e)) s) = downloadQueue s
       \<and> (if downloading (store (step cfg (GetDone c f (Some e)) s) f)
          then requestsFor f (step cfg (GetDone c f (Some e)) s) = requestsFor f s + 1
          else requestsFor f (step cfg (GetDone c f (Some e)) s) = requestsFor f s
               \<and> countMax cfg \<le> downloadingCount (step cfg (GetDone c f (Some e)) s))"
proof -
  let ?s1 = "s\<lparr>pendingGets := remove1 (c, f) (pendingGets s)\<rparr>"
  have e: "step cfg (GetDone c f (Some e)) s = ftpDownloadError cfg f c ?s1"
    using assms(2) by simp
  have m: "f \<in> set (downloadQueue (releaseAfterError f c ?s1))"
    using assms(1) by (simp add: release_keeps)
  have r1: "requestsFor f ?s1 = requestsFor f s" by (simp add: requestsFor_def)
  have sat: "downloading (store (ftpDownloadError cfg f c ?s1) f)
             \<or> countMax cfg \<le> downloadingCount (ftpDownloadError cfg f c ?s1)"
    using dniq_saturates[OF m, of cfg] by (simp add: ftpDownloadError_def)
  have ret: "requestsFor f (ftpDownloadError cfg f c ?s1)
           = requestsFor f s + (if downloading (store (ftpDownloadError cfg f c ?s1) f) then 1 else 0)"
    using error_retry[of f f ?s1 cfg c] r1 by simp
  show ?thesis unfolding e using error_queue[of cfg f c ?s1] sat ret by auto
qed

text \<open>
  C8. In \<open>Downloader\<close>, for every state in which a transfer of an entry of the queue is
  under way on a session (its closure \<open>ftpDownloadError\<close> is registered on the session, its
  request \<open>ftp.get\<close> is pending): the event \<open>error\<close> of the session, its event \<open>timeout\<close>
  and the callback of \<open>ftp.get\<close> with an error each leave the queue as it is, so the entry
  is still in it; afterwards the flag \<open>downloading\<close> of the entry is not set, unless
  \<open>ftp.get\<close> has been called for the entry again meanwhile (the flag was reset, and the
  drain pass of the same event selected the entry and retries it); when the flag is not
  set, \<open>countMax\<close> entries of the queue are downloading and the entry waits for a later
  pass. In \<open>FtpDownloader\<close>, for every transfer on which no signal has come yet, the
  session's \<open>error\<close>, its \<open>timeout\<close> and the callback of \<open>getGetSocket\<close> with an error
  each reset the flag of the entry and hand the error (that of closing the descriptor when
  closing threw) and the entry to the completion callback; the class holds no queue.
\<close>

theorem C8_failed_transfer_stays_queued:
  assumes "file \<in> set (downloadQueue s)"
      and "file \<in> set (listeners s c)"
      and "(c, file) \<in> set (pendingGets s)"
      and "\<not> crashed t" and "\<not> called t" and "streamRequests t \<noteq> []"
  shows "downloadQueue (step cfg (SessionError c) s) = downloadQueue s
       \<and> (if downloading (store (step cfg (SessionError c) s) file)
          then requestsFor file s < requestsFor file (step cfg (SessionError c) s)
          else countMax cfg \<le> downloadingCount (step cfg (SessionError c) s))
       \<and> downloadQueue (step cfg (SessionTimeout c) s) = downloadQueue s
       \<and> (if downloading (store (step cfg (SessionTimeout c) s) file)
          then requestsFor file s < requestsFor file (step cfg (SessionTimeout c) s)
          else countMax cfg \<le> downloadingCount (step cfg (SessionTimeout c) s))
       \<and> downloadQueue (step cfg (GetDone c file (Some e)) s) = downloadQueue s
       \<and> (if downloading (store (step cfg (GetDone c file (Some e)) s) file)
          then requestsFor file (step cfg (GetDone c file (Some e)) s) = requestsFor file s + 1
          else requestsFor file (step cfg (GetDone c file (Some e)) s) = requestsFor file s
               \<and> countMax cfg \<le> downloadingCount (step cfg (GetDone c file (Some e)) s))
       \<and> \<not> downloading (entry (handle (FtpError x) t))
       \<and> callbacks (handle (FtpError x) t)
           = callbacks t @ [(Some (if closeFails t then CloseFailure else SessionFailure x),
                            (entry t)\<lparr>downloading := False\<rparr>)]
       \<and> \<not> downloading (entry (handle FtpTimeout t))
       \<and> callbacks (handle FtpTimeout t)
           = callbacks t @ [(Some (if closeFails t then CloseFailure else Timeout),
                            (entry t)\<lparr>downloading := False\<rparr>)]
       \<and> \<not> downloading (entry (handle (GetSocketDone (Some x)) t))
       \<and> callbacks (handle (GetSocketDone (Some x)) t)
           = callbacks t @ [(Some (if closeFails t then CloseFailure else StreamFailure x),
                            (entry t)\<lparr>downloading := False\<rparr>)]"
proof -
  note a = sessionFailed_retry[OF assms(1,2), of cfg]
  note b = getFailed_retry[OF assms(1,3), of cfg e]
  have h1: "handle (FtpError x) t = downloadDone_once (Some (SessionFailure x)) t"
    and h2: "handle FtpTimeout t = downloadDone_once (Some Timeout) t"
    and h3: "handle (GetSocketDone (Some x)) t
               = downloadDone_once (Some (StreamFailure x)) (t\<lparr>socket := None\<rparr>)"
    using assms(4,6) by simp_all
  have n: "\<not> called (t\<lparr>socket := None\<rparr>)" using assms(5) by simp
  have c3: "closeFails (t\<lparr>socket := None\<rparr>) = closeFails t"
    by (simp add: closeFails_def split: option.splits)
  note f1 = once_failure[OF assms(5), of "SessionFailure x"]
  note f2 = once_failure[OF assms(5), of Timeout]
  note f3 = once_failure[OF n, of "StreamFailure x"]
  have g3: "\<not> downloading (entry (handle (GetSocketDone (Some x)) t))
       \<and> callbacks (handle (GetSocketDone (Some x)) t)
           = callbacks t @ [(Some (if closeFails t then CloseFailure else StreamFailure x),
                            (entry t)\<lparr>downloading := False\<rparr>)]"
    unfolding h3 using f3 c3 by simp
  have s1: "step cfg (SessionError c) s = sessionFailed cfg c s"
    and s2: "step cfg (SessionTimeout c) s = sessionFailed cfg c s"
    by simp_all
  show ?thesis unfolding s1 s2 h1 h2 using a b f1 f2 g3 by blast
qed

theorem C8_failed_transfer_stays_queued_witness:
  "0 \<in> set (downloadQueue (run cfg_example [SyncRequest, ScanDone 0 None [file_a]] init))
   \<and> 0 \<in> set (listeners (run cfg_example [SyncRequest, ScanDone 0 None [file_a]] init) 1)
   \<and> (1, 0) \<in> set (pendingGets (run cfg_example [SyncRequest, ScanDone 0 None [file_a]] init))
   \<and> \<not> crashed (start (\<lambda>x. x) entry_example ''/local/tv/showA/'' [] 0 fs_empty no_faults)
   \<and> \<not> called (start (\<lambda>x. x) entry_example ''/local/tv/showA/'' [] 0 fs_empty no_faults)
   \<and> streamRequests (start (\<lambda>x. x) entry_example ''/local/tv/showA/'' [] 0 fs_empty no_faults)
        \<noteq> []
   \<and> downloadQueue (step cfg_example (SessionError 1)
        (run cfg_example [SyncRequest, ScanDone 0 None [file_a]] init)) = [0]
   \<and> downloadQueue (step cfg_example (GetDone 1 0 (Some ''550''))
        (run cfg_example [SyncRequest, ScanDone 0 None [file_a]] init)) = [0]
   \<and> \<not> downloading (entry (handle FtpTimeout
        (start (\<lambda>x. x) entry_example ''/local/tv/showA/'' [] 0 fs_empty no_faults)))"
proof -
  let ?s = "run cfg_example [SyncRequest, ScanDone 0 None [file_a]] init"
  let ?t = "start (\<lambda>x. x) entry_example ''/local/tv/showA/'' [] 0 fs_empty no_faults"
  have h: "0 \<in> set (downloadQueue ?s)" "0 \<in> set (listeners ?s 1)"
          "(1, 0) \<in> set (pendingGets ?s)"
    by (simp_all add: evaluate)
  have k: "\<not> crashed ?t" "\<not> called ?t" "streamRequests ?t \<noteq> []"
    by (simp_all add: transfer_eval)
  have q: "downloadQueue ?s = [0]" by (simp add: evaluate)
  note t = C8_failed_transfer_stays_queued[OF h k, of cfg_example "''550''" "''''"]
  have c1: "downloadQueue (step cfg_example (SessionError 1) ?s) = downloadQueue ?s"
    using t by blast
  have c2: "downloadQueue (step cfg_example (GetDone 1 0 (Some ''550'')) ?s) = downloadQueue ?s"
    using t by blast
  have c3: "\<not> downloading (entry (handle FtpTimeout ?t))"
    using t by blast
  show ?thesis using h k c1 c2 c3 q by simp
qed

end
